theory Spec2Isabelle
  imports Main
begin

section \<open>Raw storage, element types and the memory model\<close>

text \<open>
  The development embeds \<^verbatim>\<open>advanced-vector/vector.h\<close>: the class templates
  \<^verbatim>\<open>RawMemory<T>\<close> and \<^verbatim>\<open>Vector<T>\<close>.

  A cell of a raw block either holds no object (\<open>Raw\<close>) or a constructed object of the
  element type (\<open>Live x\<close>). Placement construction turns a cell into \<open>Live\<close>, a destructor
  call turns it back into \<open>Raw\<close>.
\<close>

datatype 'a cell = Raw | Live 'a

text \<open>
  What can end an operation other than a normal return: an exception thrown by an operation
  of the element type, \<^verbatim>\<open>std::bad_alloc\<close> thrown by \<^verbatim>\<open>operator new\<close>, a failed
  \<^verbatim>\<open>assert\<close> (the model is the debug build: \<^verbatim>\<open>NDEBUG\<close> is not defined), and undefined
  behaviour (reading, assigning to or destroying a cell that holds no object, or touching a
  cell outside its block).
\<close>

datatype fault = Thrown | BadAlloc | AssertFailed | UndefinedBehaviour

text \<open>
  The template parameter \<^verbatim>\<open>T\<close>. Values of the element type are of type \<open>'a\<close>; its
  operations may read and change a state \<open>'s\<close> of their own (a counter of copies, say) and
  may throw. The two flags are the type traits the source branches on.
  \<^item> \<open>value_init\<close> is \<^verbatim>\<open>T()\<close>: the new value, or \<open>None\<close> when it throws.
  \<^item> \<open>copy_ctor x\<close> is \<^verbatim>\<open>T(const T&)\<close>: the new value, or \<open>None\<close> when it throws.
  \<^item> \<open>move_ctor x\<close> is \<^verbatim>\<open>T(T&&)\<close>: the new value (or \<open>None\<close> when it throws) and the
    value left in the source object.
  \<^item> \<open>copy_assign t x\<close> is \<^verbatim>\<open>t = x\<close>: whether it returned normally, and the value of the
    target afterwards.
  \<^item> \<open>move_assign t x\<close> is \<^verbatim>\<open>t = std::move(x)\<close>: whether it returned normally, the
    value of the target and the value left in the source afterwards.
\<close>

record ('a, 's) elem_type =
  is_nothrow_move_constructible :: bool
  is_copy_constructible :: bool
  value_init :: "'s \<Rightarrow> 'a option \<times> 's"
  copy_ctor :: "'a \<Rightarrow> 's \<Rightarrow> 'a option \<times> 's"
  move_ctor :: "'a \<Rightarrow> 's \<Rightarrow> ('a option \<times> 'a) \<times> 's"
  copy_assign :: "'a \<Rightarrow> 'a \<Rightarrow> 's \<Rightarrow> (bool \<times> 'a) \<times> 's"
  move_assign :: "'a \<Rightarrow> 'a \<Rightarrow> 's \<Rightarrow> (bool \<times> 'a \<times> 'a) \<times> 's"

text \<open>
  The store. \<open>heap\<close> maps the address of every allocated block to its cells; a pointer
  \<^verbatim>\<open>T*\<close> is a block address (\<open>None\<close> is \<^verbatim>\<open>nullptr\<close>) with an element offset.
  \<open>next_addr\<close> is the allocator's next fresh address and \<open>avail\<close> the number of bytes it
  can still hand out. \<open>leaked\<close> counts the objects whose storage was released while they
  were still alive (no destructor ran); it is observation only, no operation reads it.
  \<open>tstate\<close> is the state of the element type's operations and \<open>tsize\<close> is
  \<^verbatim>\<open>sizeof(T)\<close>, the number of bytes of a cell.

  \<^verbatim>\<open>size_t\<close> has 64 bits. Sizes and indices are natural numbers; where the source
  multiplies two of them (\<^verbatim>\<open>n * sizeof(T)\<close>, \<^verbatim>\<open>size_ * 2\<close>) the model takes the
  product modulo \<open>2 ^ 64\<close>.
\<close>

record ('a, 's) world =
  heap :: "nat \<rightharpoonup> 'a cell list"
  next_addr :: nat
  avail :: nat
  leaked :: nat
  tstate :: 's
  tsize :: nat

type_synonym ptr = "nat option \<times> nat"

text \<open>The product of two \<^verbatim>\<open>size_t\<close> values.\<close>

definition size_t_mul :: "nat \<Rightarrow> nat \<Rightarrow> nat" where
  "size_t_mul a b = (a * b) mod 2 ^ 64"

text \<open>
  The low \<open>k\<close> bits of a number, bit by bit: the way \<open>size_t_mul\<close> is evaluated on
  concrete numbers.
\<close>

fun low_bits :: "nat \<Rightarrow> nat \<Rightarrow> nat" where
  "low_bits 0 x = 0"
| "low_bits (Suc k) x = (if x = 0 then 0 else x mod 2 + 2 * low_bits k (x div 2))"

subsection \<open>RawMemory\<close>

text \<open>The members \<^verbatim>\<open>buffer_\<close> and \<^verbatim>\<open>capacity_\<close>.\<close>

record RawMemory =
  buffer_m :: "nat option"
  capacity_m :: nat

definition is_live :: "'a cell \<Rightarrow> bool" where
  "is_live c = (case c of Raw \<Rightarrow> False | Live x \<Rightarrow> True)"

text \<open>
  \<^verbatim>\<open>operator new(bytes)\<close>: a fresh uninitialised block of \<open>bytes\<close> bytes, or
  \<^verbatim>\<open>std::bad_alloc\<close> when the allocator has fewer bytes left. The block has room for
  \<open>bytes div sizeof(T)\<close> cells; a request of 0 bytes gives a block without a cell.
\<close>

definition operator_new :: "nat \<Rightarrow> ('a, 's) world \<Rightarrow> fault + (nat option \<times> ('a, 's) world)" where
  "operator_new bytes w =
     (if bytes \<le> avail w then
        Inr (Some (next_addr w),
             w\<lparr>heap := (heap w)(next_addr w \<mapsto> replicate (bytes div tsize w) Raw),
               next_addr := Suc (next_addr w),
               avail := avail w - bytes\<rparr>)
      else Inl BadAlloc)"

text \<open>
  \<^verbatim>\<open>Allocate(n)\<close>: \<^verbatim>\<open>n != 0 ? operator new(n * sizeof(T)) : nullptr\<close>. The product is
  computed in \<^verbatim>\<open>size_t\<close> and is not checked: when it wraps, the block is smaller than
  \<open>n\<close> cells.
\<close>

definition Allocate :: "nat \<Rightarrow> ('a, 's) world \<Rightarrow> fault + (nat option \<times> ('a, 's) world)" where
  "Allocate n w =
     (if n \<noteq> 0 then operator_new (size_t_mul n (tsize w)) w else Inr (None, w))"

text \<open>
  \<^verbatim>\<open>Deallocate(buf)\<close>: \<^verbatim>\<open>operator delete(buf)\<close>, a no-op on \<^verbatim>\<open>nullptr\<close>. It runs no
  destructor: objects still alive in the block are lost, and \<open>leaked\<close> counts them. The
  bytes of the cells of the block go back to the allocator. An address that holds no block is
  left alone.
\<close>

definition Deallocate :: "nat option \<Rightarrow> ('a, 's) world \<Rightarrow> ('a, 's) world" where
  "Deallocate buf w =
     (case buf of
        None \<Rightarrow> w
      | Some a \<Rightarrow>
          (case heap w a of
             None \<Rightarrow> w
           | Some cs \<Rightarrow>
               w\<lparr>heap := (heap w)(a := None),
                 avail := avail w + length cs * tsize w,
                 leaked := leaked w + length (filter is_live cs)\<rparr>))"

text \<open>\<^verbatim>\<open>RawMemory() = default\<close> and \<^verbatim>\<open>explicit RawMemory(size_t capacity)\<close>.\<close>

definition RawMemory_default :: RawMemory where
  "RawMemory_default = \<lparr>buffer_m = None, capacity_m = 0\<rparr>"

definition RawMemory_new :: "nat \<Rightarrow> ('a, 's) world \<Rightarrow> fault + (RawMemory \<times> ('a, 's) world)" where
  "RawMemory_new capacity w =
     (case Allocate capacity w of
        Inl e \<Rightarrow> Inl e
      | Inr (buf, w') \<Rightarrow> Inr (\<lparr>buffer_m = buf, capacity_m = capacity\<rparr>, w'))"

text \<open>\<^verbatim>\<open>RawMemory::Swap\<close> exchanges the two members of the two objects.\<close>

definition RawMemory_Swap :: "RawMemory \<times> RawMemory \<Rightarrow> RawMemory \<times> RawMemory" where
  "RawMemory_Swap p =
     (case p of (this, other) \<Rightarrow>
        (this\<lparr>buffer_m := buffer_m other, capacity_m := capacity_m other\<rparr>,
         other\<lparr>buffer_m := buffer_m this, capacity_m := capacity_m this\<rparr>))"

text \<open>
  \<^verbatim>\<open>RawMemory::operator+\<close> asserts \<^verbatim>\<open>offset <= capacity_\<close> (one past the end is a legal
  address) and \<^verbatim>\<open>RawMemory::operator[]\<close> asserts \<^verbatim>\<open>index < capacity_\<close>; both return the
  address, no cell is read.
\<close>

definition RawMemory_plus :: "RawMemory \<Rightarrow> nat \<Rightarrow> fault + ptr" where
  "RawMemory_plus m offset =
     (if offset \<le> capacity_m m then Inr (buffer_m m, offset) else Inl AssertFailed)"

definition RawMemory_index :: "RawMemory \<Rightarrow> nat \<Rightarrow> fault + ptr" where
  "RawMemory_index m index =
     (if index < capacity_m m then Inr (buffer_m m, index) else Inl AssertFailed)"

text \<open>The const overload casts the constness away and calls the other one.\<close>

definition RawMemory_index_const :: "RawMemory \<Rightarrow> nat \<Rightarrow> fault + ptr" where
  "RawMemory_index_const m index = RawMemory_index m index"

text \<open>
  The cells of the block a \<^verbatim>\<open>RawMemory\<close> owns (\<^verbatim>\<open>nullptr\<close> owns no cell; \<open>None\<close> is a
  dangling pointer), and the write-back of a block.
\<close>

definition block :: "RawMemory \<Rightarrow> ('a, 's) world \<Rightarrow> 'a cell list option" where
  "block m w = (case buffer_m m of None \<Rightarrow> Some [] | Some a \<Rightarrow> heap w a)"

definition put_block :: "RawMemory \<Rightarrow> 'a cell list \<Rightarrow> ('a, 's) world \<Rightarrow> ('a, 's) world" where
  "put_block m cs w =
     (case buffer_m m of None \<Rightarrow> w | Some a \<Rightarrow> w\<lparr>heap := (heap w)(a \<mapsto> cs)\<rparr>)"

subsection \<open>Operations on the cells of a block\<close>

text \<open>Reading the object in cell \<open>i\<close>: undefined (\<open>None\<close>) outside the block or on a raw cell.\<close>

definition read :: "'a cell list \<Rightarrow> nat \<Rightarrow> 'a option" where
  "read cs i =
     (if i < length cs then (case cs ! i of Raw \<Rightarrow> None | Live x \<Rightarrow> Some x) else None)"

text \<open>
  \<^verbatim>\<open>Destroy(buf)\<close> and \<^verbatim>\<open>std::destroy_at\<close> run the destructor of the object in a cell;
  \<^verbatim>\<open>DestroyN(buf, n)\<close> and \<^verbatim>\<open>std::destroy_n\<close> do so for \<open>n\<close> cells in ascending order.
  Destroying what is not an object is undefined (\<open>None\<close>).
\<close>

definition Destroy :: "'a cell list \<Rightarrow> nat \<Rightarrow> 'a cell list option" where
  "Destroy cs i = (if i < length cs \<and> is_live (cs ! i) then Some (cs[i := Raw]) else None)"

fun DestroyN :: "'a cell list \<Rightarrow> nat \<Rightarrow> nat \<Rightarrow> 'a cell list option" where
  "DestroyN cs i 0 = Some cs"
| "DestroyN cs i (Suc n) =
     (case Destroy cs i of None \<Rightarrow> None | Some cs' \<Rightarrow> DestroyN cs' (Suc i) n)"

text \<open>
  \<^verbatim>\<open>std::uninitialized_copy_n(first, n, d_first)\<close>: copy-constructs \<open>n\<close> objects of the
  block \<open>src\<close>, from cell \<open>first\<close> on, into the raw cells of \<open>dst\<close> from \<open>d\<close> on. When a
  constructor throws, the objects already constructed are destroyed and the exception goes on.
\<close>

fun uninitialized_copy_n ::
  "('a, 's) elem_type \<Rightarrow> 'a cell list \<Rightarrow> nat \<Rightarrow> nat \<Rightarrow> 'a cell list \<Rightarrow> nat \<Rightarrow> 's
     \<Rightarrow> fault option \<times> 'a cell list \<times> 's" where
  "uninitialized_copy_n T src first 0 dst d s = (None, dst, s)"
| "uninitialized_copy_n T src first (Suc n) dst d s =
     (case read src first of
        None \<Rightarrow> (Some UndefinedBehaviour, dst, s)
      | Some x \<Rightarrow>
          if d < length dst then
            (case copy_ctor T x s of
               (None, s1) \<Rightarrow> (Some Thrown, dst, s1)
             | (Some y, s1) \<Rightarrow>
                 (case uninitialized_copy_n T src (Suc first) n (dst[d := Live y]) (Suc d) s1 of
                    (None, dst', s2) \<Rightarrow> (None, dst', s2)
                  | (Some e, dst', s2) \<Rightarrow> (Some e, dst'[d := Raw], s2)))
          else (Some UndefinedBehaviour, dst, s))"

text \<open>
  \<^verbatim>\<open>std::uninitialized_move_n(first, n, d_first)\<close>: the same with the move constructor,
  which also changes the source object. When a constructor throws, the objects already
  constructed are destroyed; the sources already moved from stay as the moves left them.
\<close>

fun uninitialized_move_n ::
  "('a, 's) elem_type \<Rightarrow> 'a cell list \<Rightarrow> nat \<Rightarrow> nat \<Rightarrow> 'a cell list \<Rightarrow> nat \<Rightarrow> 's
     \<Rightarrow> fault option \<times> 'a cell list \<times> 'a cell list \<times> 's" where
  "uninitialized_move_n T src first 0 dst d s = (None, src, dst, s)"
| "uninitialized_move_n T src first (Suc n) dst d s =
     (case read src first of
        None \<Rightarrow> (Some UndefinedBehaviour, src, dst, s)
      | Some x \<Rightarrow>
          if d < length dst then
            (case move_ctor T x s of
               ((None, r), s1) \<Rightarrow> (Some Thrown, src[first := Live r], dst, s1)
             | ((Some y, r), s1) \<Rightarrow>
                 (case uninitialized_move_n T (src[first := Live r]) (Suc first) n
                         (dst[d := Live y]) (Suc d) s1 of
                    (None, src', dst', s2) \<Rightarrow> (None, src', dst', s2)
                  | (Some e, src', dst', s2) \<Rightarrow> (Some e, src', dst'[d := Raw], s2)))
          else (Some UndefinedBehaviour, src, dst, s))"

text \<open>
  \<^verbatim>\<open>std::uninitialized_value_construct_n(first, n)\<close>: value-constructs \<open>n\<close> objects in the
  raw cells of \<open>dst\<close> from \<open>d\<close> on, with the same clean-up when a constructor throws.
\<close>

fun uninitialized_value_construct_n ::
  "('a, 's) elem_type \<Rightarrow> 'a cell list \<Rightarrow> nat \<Rightarrow> nat \<Rightarrow> 's
     \<Rightarrow> fault option \<times> 'a cell list \<times> 's" where
  "uninitialized_value_construct_n T dst d 0 s = (None, dst, s)"
| "uninitialized_value_construct_n T dst d (Suc n) s =
     (if d < length dst then
        (case value_init T s of
           (None, s1) \<Rightarrow> (Some Thrown, dst, s1)
         | (Some y, s1) \<Rightarrow>
             (case uninitialized_value_construct_n T (dst[d := Live y]) (Suc d) n s1 of
                (None, dst', s2) \<Rightarrow> (None, dst', s2)
              | (Some e, dst', s2) \<Rightarrow> (Some e, dst'[d := Raw], s2)))
      else (Some UndefinedBehaviour, dst, s))"

text \<open>
  \<^verbatim>\<open>std::copy(first, last, d_first)\<close> from one block into another: copy-assigns \<open>n\<close>
  objects of \<open>src\<close>, from cell \<open>first\<close> on, to the objects of \<open>dst\<close> from \<open>d\<close> on, in
  ascending order. An assignment that throws ends the loop; nothing is undone.
\<close>

fun copy_range ::
  "('a, 's) elem_type \<Rightarrow> 'a cell list \<Rightarrow> nat \<Rightarrow> nat \<Rightarrow> 'a cell list \<Rightarrow> nat \<Rightarrow> 's
     \<Rightarrow> fault option \<times> 'a cell list \<times> 's" where
  "copy_range T src first 0 dst d s = (None, dst, s)"
| "copy_range T src first (Suc n) dst d s =
     (case (read src first, read dst d) of
        (Some x, Some t) \<Rightarrow>
          (case copy_assign T t x s of
             ((False, t'), s1) \<Rightarrow> (Some Thrown, dst[d := Live t'], s1)
           | ((True, t'), s1) \<Rightarrow> copy_range T src (Suc first) n (dst[d := Live t']) (Suc d) s1)
      | _ \<Rightarrow> (Some UndefinedBehaviour, dst, s))"

text \<open>
  \<^verbatim>\<open>std::move(first, last, d_first)\<close> inside one block: move-assigns the \<open>n\<close> objects from
  cell \<open>first\<close> on to the objects from cell \<open>d\<close> on, in ascending order.
\<close>

fun move_range ::
  "('a, 's) elem_type \<Rightarrow> 'a cell list \<Rightarrow> nat \<Rightarrow> nat \<Rightarrow> nat \<Rightarrow> 's
     \<Rightarrow> fault option \<times> 'a cell list \<times> 's" where
  "move_range T cs first 0 d s = (None, cs, s)"
| "move_range T cs first (Suc n) d s =
     (case (read cs first, read cs d) of
        (Some x, Some t) \<Rightarrow>
          (case move_assign T t x s of
             ((False, t', x'), s1) \<Rightarrow> (Some Thrown, cs[first := Live x', d := Live t'], s1)
           | ((True, t', x'), s1) \<Rightarrow>
               move_range T (cs[first := Live x', d := Live t']) (Suc first) n (Suc d) s1)
      | _ \<Rightarrow> (Some UndefinedBehaviour, cs, s))"

text \<open>
  \<^verbatim>\<open>std::move_backward(first, last, d_last)\<close> inside one block, with \<open>n = last - first\<close>:
  move-assigns the objects of cells \<open>first + n - 1\<close> down to \<open>first\<close> to the objects of
  cells \<open>d_last - 1\<close> downwards.
\<close>

fun move_backward ::
  "('a, 's) elem_type \<Rightarrow> 'a cell list \<Rightarrow> nat \<Rightarrow> nat \<Rightarrow> nat \<Rightarrow> 's
     \<Rightarrow> fault option \<times> 'a cell list \<times> 's" where
  "move_backward T cs first 0 d_last s = (None, cs, s)"
| "move_backward T cs first (Suc n) d_last s =
     (if d_last = 0 then (Some UndefinedBehaviour, cs, s)
      else
        (case (read cs (first + n), read cs (d_last - 1)) of
           (Some x, Some t) \<Rightarrow>
             (case move_assign T t x s of
                ((False, t', x'), s1) \<Rightarrow>
                  (Some Thrown, cs[first + n := Live x', d_last - 1 := Live t'], s1)
              | ((True, t', x'), s1) \<Rightarrow>
                  move_backward T (cs[first + n := Live x', d_last - 1 := Live t'])
                    first n (d_last - 1) s1)
         | _ \<Rightarrow> (Some UndefinedBehaviour, cs, s)))"

section \<open>Vector\<close>

text \<open>The members \<^verbatim>\<open>data_\<close> and \<^verbatim>\<open>size_\<close>.\<close>

record Vector =
  data_m :: RawMemory
  size_m :: nat

text \<open>\<^verbatim>\<open>Vector() = default\<close>: no allocation.\<close>

definition Vector_default :: Vector where
  "Vector_default = \<lparr>data_m = RawMemory_default, size_m = 0\<rparr>"

definition Capacity :: "Vector \<Rightarrow> nat" where
  "Capacity v = capacity_m (data_m v)"

definition Size :: "Vector \<Rightarrow> nat" where
  "Size v = size_m v"

text \<open>
  Iterators are plain pointers. \<^verbatim>\<open>begin()\<close> is \<^verbatim>\<open>data_.GetAddress()\<close> and
  \<^verbatim>\<open>end()\<close> is \<^verbatim>\<open>data_.GetAddress() + size_\<close>; the const overloads and
  \<^verbatim>\<open>cbegin\<close>, \<^verbatim>\<open>cend\<close> return the same addresses.
\<close>

definition GetAddress :: "RawMemory \<Rightarrow> ptr" where
  "GetAddress m = (buffer_m m, 0)"

definition ptr_add :: "ptr \<Rightarrow> nat \<Rightarrow> ptr" where
  "ptr_add p n = (fst p, snd p + n)"

definition begin_v :: "Vector \<Rightarrow> ptr" where
  "begin_v v = GetAddress (data_m v)"

definition end_v :: "Vector \<Rightarrow> ptr" where
  "end_v v = ptr_add (GetAddress (data_m v)) (size_m v)"

definition cbegin :: "Vector \<Rightarrow> ptr" where
  "cbegin v = GetAddress (data_m v)"

definition cend :: "Vector \<Rightarrow> ptr" where
  "cend v = ptr_add (GetAddress (data_m v)) (size_m v)"

text \<open>
  Pointer comparison and difference. Two pointers are ordered when they point into the same
  block (or are both null); a pointer into another block fails every comparison of an
  \<^verbatim>\<open>assert\<close>.
\<close>

definition ptr_le :: "ptr \<Rightarrow> ptr \<Rightarrow> bool" where
  "ptr_le p q = (fst p = fst q \<and> snd p \<le> snd q)"

definition ptr_less :: "ptr \<Rightarrow> ptr \<Rightarrow> bool" where
  "ptr_less p q = (fst p = fst q \<and> snd p < snd q)"

definition ptr_diff :: "ptr \<Rightarrow> ptr \<Rightarrow> nat" where
  "ptr_diff p q = snd p - snd q"

text \<open>
  \<^verbatim>\<open>operator[]\<close>. The mutable overload asserts \<^verbatim>\<open>index < size_\<close> and then indexes
  \<^verbatim>\<open>data_\<close>; the const overload only indexes \<^verbatim>\<open>data_\<close>. Both return a reference.
\<close>

definition Vector_index :: "Vector \<Rightarrow> nat \<Rightarrow> fault + ptr" where
  "Vector_index v index =
     (if index < size_m v then RawMemory_index (data_m v) index else Inl AssertFailed)"

definition Vector_index_const :: "Vector \<Rightarrow> nat \<Rightarrow> fault + ptr" where
  "Vector_index_const v index = RawMemory_index_const (data_m v) index"

text \<open>
  Writing the blocks a member function worked on back to the store, with the state of the
  element operations: \<open>old\<close> is the block of \<^verbatim>\<open>data_\<close>, \<open>nb\<close> the one of the new
  \<^verbatim>\<open>RawMemory\<close>.
\<close>

definition write_back ::
  "Vector \<Rightarrow> RawMemory \<Rightarrow> 'a cell list \<Rightarrow> 'a cell list \<Rightarrow> 's \<Rightarrow> ('a, 's) world \<Rightarrow> ('a, 's) world" where
  "write_back v new_data old nb s w =
     put_block new_data nb (put_block (data_m v) old (w\<lparr>tstate := s\<rparr>))"

text \<open>
  \<^verbatim>\<open>Reserve(new_capacity)\<close>. The local \<^verbatim>\<open>new_data\<close> releases its block when the function
  is left, by return or by exception: the new block when the transfer threw, the old one
  after \<^verbatim>\<open>data_.Swap(new_data)\<close>.
\<close>

definition Reserve ::
  "('a, 's) elem_type \<Rightarrow> nat \<Rightarrow> Vector \<times> ('a, 's) world
     \<Rightarrow> fault option \<times> Vector \<times> ('a, 's) world" where
  "Reserve T new_capacity vw =
     (case vw of (v, w) \<Rightarrow>
        if new_capacity \<le> capacity_m (data_m v) then (None, v, w)
        else
          (case RawMemory_new new_capacity w of
             Inl e \<Rightarrow> (Some e, v, w)
           | Inr (new_data, w1) \<Rightarrow>
               (case (block (data_m v) w1, block new_data w1) of
                  (Some old, Some nb) \<Rightarrow>
                    (case (if is_nothrow_move_constructible T \<or> \<not> is_copy_constructible T
                           then uninitialized_move_n T old 0 (size_m v) nb 0 (tstate w1)
                           else (case uninitialized_copy_n T old 0 (size_m v) nb 0 (tstate w1) of
                                   (r, nb', s) \<Rightarrow> (r, old, nb', s))) of
                       (Some e, old1, nb1, s1) \<Rightarrow>
                         (Some e, v, Deallocate (buffer_m new_data) (write_back v new_data old1 nb1 s1 w1))
                     | (None, old1, nb1, s1) \<Rightarrow>
                         (case DestroyN old1 0 (size_m v) of
                            None \<Rightarrow> (Some UndefinedBehaviour, v, w1)
                          | Some old2 \<Rightarrow>
                              (case RawMemory_Swap (data_m v, new_data) of
                                 (data', new_data') \<Rightarrow>
                                   (None, v\<lparr>data_m := data'\<rparr>,
                                    Deallocate (buffer_m new_data')
                                      (write_back v new_data old2 nb1 s1 w1)))))
                | _ \<Rightarrow> (Some UndefinedBehaviour, v, w1))))"

text \<open>\<^verbatim>\<open>PopBack()\<close>: asserts \<^verbatim>\<open>size_ > 0\<close>, destroys the last object.\<close>

definition PopBack ::
  "Vector \<times> ('a, 's) world \<Rightarrow> fault option \<times> Vector \<times> ('a, 's) world" where
  "PopBack vw =
     (case vw of (v, w) \<Rightarrow>
        if 0 < size_m v then
          (case block (data_m v) w of
             None \<Rightarrow> (Some UndefinedBehaviour, v, w)
           | Some cs \<Rightarrow>
               (case Destroy cs (size_m v - 1) of
                  None \<Rightarrow> (Some UndefinedBehaviour, v, w)
                | Some cs' \<Rightarrow> (None, v\<lparr>size_m := size_m v - 1\<rparr>, put_block (data_m v) cs' w)))
        else (Some AssertFailed, v, w))"

text \<open>
  The \<^verbatim>\<open>try\<close> block of the reallocating branch of \<^verbatim>\<open>Emplace\<close> with its handlers, on the
  old block and the new one (which already holds the new element in cell \<open>it_pos\<close>). The
  outer handler destroys the new element; in the copying branch the inner handler first
  destroys the \<open>it_pos\<close> copies of the prefix. The moving branch has no inner handler.
\<close>

definition Emplace_catch ::
  "fault \<Rightarrow> nat \<Rightarrow> 'a cell list \<Rightarrow> 'a cell list \<Rightarrow> 's
     \<Rightarrow> fault option \<times> 'a cell list \<times> 'a cell list \<times> 's" where
  "Emplace_catch e it_pos old nb s =
     (case Destroy nb it_pos of
        None \<Rightarrow> (Some UndefinedBehaviour, old, nb, s)
      | Some nb' \<Rightarrow> (Some e, old, nb', s))"

definition Emplace_transfer ::
  "('a, 's) elem_type \<Rightarrow> 'a cell list \<Rightarrow> nat \<Rightarrow> nat \<Rightarrow> 'a cell list \<Rightarrow> 's
     \<Rightarrow> fault option \<times> 'a cell list \<times> 'a cell list \<times> 's" where
  "Emplace_transfer T old sz it_pos nb s =
     (if is_nothrow_move_constructible T \<or> \<not> is_copy_constructible T then
        (case uninitialized_move_n T old 0 it_pos nb 0 s of
           (Some e, old1, nb1, s1) \<Rightarrow> Emplace_catch e it_pos old1 nb1 s1
         | (None, old1, nb1, s1) \<Rightarrow>
             (case uninitialized_move_n T old1 it_pos (sz - it_pos) nb1 (it_pos + 1) s1 of
                (Some e, old2, nb2, s2) \<Rightarrow> Emplace_catch e it_pos old2 nb2 s2
              | (None, old2, nb2, s2) \<Rightarrow> (None, old2, nb2, s2)))
      else
        (case uninitialized_copy_n T old 0 it_pos nb 0 s of
           (Some e, nb1, s1) \<Rightarrow> Emplace_catch e it_pos old nb1 s1
         | (None, nb1, s1) \<Rightarrow>
             (case uninitialized_copy_n T old it_pos (sz - it_pos) nb1 (it_pos + 1) s1 of
                (Some e, nb2, s2) \<Rightarrow>
                  (case DestroyN nb2 0 it_pos of
                     None \<Rightarrow> (Some UndefinedBehaviour, old, nb2, s2)
                   | Some nb3 \<Rightarrow> Emplace_catch e it_pos old nb3 s2)
              | (None, nb2, s2) \<Rightarrow> (None, old, nb2, s2))))"

text \<open>
  The branch \<^verbatim>\<open>size_ == Capacity()\<close> of \<^verbatim>\<open>Emplace\<close>. \<open>mk\<close> is the constructor call
  \<^verbatim>\<open>T(std::forward<Args>(args)...)\<close>: the new value, or \<open>None\<close> when it throws.
\<close>

definition Emplace_realloc ::
  "('a, 's) elem_type \<Rightarrow> nat \<Rightarrow> ('s \<Rightarrow> 'a option \<times> 's) \<Rightarrow> Vector \<times> ('a, 's) world
     \<Rightarrow> (fault + ptr) \<times> Vector \<times> ('a, 's) world" where
  "Emplace_realloc T it_pos mk vw =
     (case vw of (v, w) \<Rightarrow>
        (case RawMemory_new (if size_m v = 0 then 1 else size_t_mul (size_m v) 2) w of
           Inl e \<Rightarrow> (Inl e, v, w)
         | Inr (new_memory, w1) \<Rightarrow>
             (case (block (data_m v) w1, block new_memory w1) of
                (Some old, Some nb) \<Rightarrow>
                  if it_pos < length nb then
                    (case mk (tstate w1) of
                       (None, s0) \<Rightarrow>
                         (Inl Thrown, v, Deallocate (buffer_m new_memory) (w1\<lparr>tstate := s0\<rparr>))
                     | (Some x, s0) \<Rightarrow>
                         (case Emplace_transfer T old (size_m v) it_pos (nb[it_pos := Live x]) s0 of
                            (Some e, old1, nb1, s1) \<Rightarrow>
                              (Inl e, v,
                               Deallocate (buffer_m new_memory) (write_back v new_memory old1 nb1 s1 w1))
                          | (None, old1, nb1, s1) \<Rightarrow>
                              (case RawMemory_Swap (data_m v, new_memory) of
                                 (data', new_memory') \<Rightarrow>
                                   (case DestroyN old1 0 (size_m v) of
                                      None \<Rightarrow> (Inl UndefinedBehaviour, v, w1)
                                    | Some old2 \<Rightarrow>
                                        (Inr (ptr_add (GetAddress data') it_pos),
                                         v\<lparr>data_m := data', size_m := size_m v + 1\<rparr>,
                                         Deallocate (buffer_m new_memory')
                                           (write_back v new_memory old2 nb1 s1 w1))))))
                  else (Inl UndefinedBehaviour, v, w1)
              | _ \<Rightarrow> (Inl UndefinedBehaviour, v, w1))))"

text \<open>
  The rest of \<^verbatim>\<open>Emplace\<close>, with a free cell after the last element. The handler of
  \<^verbatim>\<open>std::move_backward\<close> destroys the object in \<^verbatim>\<open>end()\<close> and does not rethrow: the
  function goes on with the assignment of \<^verbatim>\<open>temp\<close> and \<^verbatim>\<open>size_++\<close>.
\<close>

definition Emplace_shift ::
  "('a, 's) elem_type \<Rightarrow> 'a cell list \<Rightarrow> nat \<Rightarrow> nat \<Rightarrow> 's \<Rightarrow> 'a cell list option \<times> 's" where
  "Emplace_shift T cs it_pos sz s =
     (case move_backward T cs it_pos (sz - 1 - it_pos) sz s of
        (None, cs', s') \<Rightarrow> (Some cs', s')
      | (Some Thrown, cs', s') \<Rightarrow> (Destroy cs' sz, s')
      | (Some e, cs', s') \<Rightarrow> (None, s'))"

definition Emplace_inplace ::
  "('a, 's) elem_type \<Rightarrow> ptr \<Rightarrow> ('s \<Rightarrow> 'a option \<times> 's) \<Rightarrow> Vector \<times> ('a, 's) world
     \<Rightarrow> (fault + ptr) \<times> Vector \<times> ('a, 's) world" where
  "Emplace_inplace T pos mk vw =
     (case vw of (v, w) \<Rightarrow>
        (case block (data_m v) w of
           None \<Rightarrow> (Inl UndefinedBehaviour, v, w)
         | Some cs \<Rightarrow>
             if pos = cend v then
               (if size_m v < length cs then
                  (case mk (tstate w) of
                     (None, s0) \<Rightarrow> (Inl Thrown, v, w\<lparr>tstate := s0\<rparr>)
                   | (Some x, s0) \<Rightarrow>
                       (Inr pos, v\<lparr>size_m := size_m v + 1\<rparr>,
                        put_block (data_m v) (cs[size_m v := Live x]) (w\<lparr>tstate := s0\<rparr>)))
                else (Inl UndefinedBehaviour, v, w))
             else
               (case mk (tstate w) of
                  (None, s0) \<Rightarrow> (Inl Thrown, v, w\<lparr>tstate := s0\<rparr>)
                | (Some temp, s0) \<Rightarrow>
                    (case (if 0 < size_m v \<and> size_m v < length cs
                           then read cs (size_m v - 1) else None) of
                       None \<Rightarrow> (Inl UndefinedBehaviour, v, w)
                     | Some l \<Rightarrow>
                         (case move_ctor T l s0 of
                            ((None, l'), s1) \<Rightarrow>
                              (Inl Thrown, v,
                               put_block (data_m v) (cs[size_m v - 1 := Live l']) (w\<lparr>tstate := s1\<rparr>))
                          | ((Some y, l'), s1) \<Rightarrow>
                              (case Emplace_shift T (cs[size_m v - 1 := Live l', size_m v := Live y])
                                      (ptr_diff pos (begin_v v)) (size_m v) s1 of
                                 (None, s2) \<Rightarrow> (Inl UndefinedBehaviour, v, w)
                               | (Some cs3, s2) \<Rightarrow>
                                   (case read cs3 (ptr_diff pos (begin_v v)) of
                                      None \<Rightarrow> (Inl UndefinedBehaviour, v, w)
                                    | Some t \<Rightarrow>
                                        (case move_assign T t temp s2 of
                                           ((False, t', temp'), s3) \<Rightarrow>
                                             (Inl Thrown, v,
                                              put_block (data_m v)
                                                (cs3[ptr_diff pos (begin_v v) := Live t'])
                                                (w\<lparr>tstate := s3\<rparr>))
                                         | ((True, t', temp'), s3) \<Rightarrow>
                                             (Inr pos, v\<lparr>size_m := size_m v + 1\<rparr>,
                                              put_block (data_m v)
                                                (cs3[ptr_diff pos (begin_v v) := Live t'])
                                                (w\<lparr>tstate := s3\<rparr>))))))))))"

text \<open>\<^verbatim>\<open>Emplace(pos, args...)\<close>.\<close>

definition Emplace ::
  "('a, 's) elem_type \<Rightarrow> ptr \<Rightarrow> ('s \<Rightarrow> 'a option \<times> 's) \<Rightarrow> Vector \<times> ('a, 's) world
     \<Rightarrow> (fault + ptr) \<times> Vector \<times> ('a, 's) world" where
  "Emplace T pos mk vw =
     (case vw of (v, w) \<Rightarrow>
        if ptr_le (begin_v v) pos \<and> ptr_le pos (end_v v) then
          (if size_m v = Capacity v
           then Emplace_realloc T (ptr_diff pos (begin_v v)) mk (v, w)
           else Emplace_inplace T pos mk (v, w))
        else (Inl AssertFailed, v, w))"

text \<open>
  \<^verbatim>\<open>Insert(pos, const T&)\<close> and \<^verbatim>\<open>Insert(pos, T&&)\<close> are \<^verbatim>\<open>Emplace\<close> with the copy and
  the move constructor. The argument is an object outside the vector; what the move leaves in
  it is not part of the vector's state.
\<close>

definition move_from :: "('a, 's) elem_type \<Rightarrow> 'a \<Rightarrow> 's \<Rightarrow> 'a option \<times> 's" where
  "move_from T x s = (case move_ctor T x s of ((r, x'), s') \<Rightarrow> (r, s'))"

definition Insert ::
  "('a, 's) elem_type \<Rightarrow> ptr \<Rightarrow> 'a \<Rightarrow> Vector \<times> ('a, 's) world
     \<Rightarrow> (fault + ptr) \<times> Vector \<times> ('a, 's) world" where
  "Insert T pos x vw = Emplace T pos (copy_ctor T x) vw"

definition Insert_move ::
  "('a, 's) elem_type \<Rightarrow> ptr \<Rightarrow> 'a \<Rightarrow> Vector \<times> ('a, 's) world
     \<Rightarrow> (fault + ptr) \<times> Vector \<times> ('a, 's) world" where
  "Insert_move T pos x vw = Emplace T pos (move_from T x) vw"

text \<open>
  \<^verbatim>\<open>EmplaceBack(args...)\<close> is \<^verbatim>\<open>*Emplace(end(), args...)\<close>; \<^verbatim>\<open>PushBack\<close> calls it with
  a copy or a move of its argument and returns nothing.
\<close>

definition EmplaceBack ::
  "('a, 's) elem_type \<Rightarrow> ('s \<Rightarrow> 'a option \<times> 's) \<Rightarrow> Vector \<times> ('a, 's) world
     \<Rightarrow> (fault + ptr) \<times> Vector \<times> ('a, 's) world" where
  "EmplaceBack T mk vw = (case vw of (v, w) \<Rightarrow> Emplace T (end_v v) mk (v, w))"

definition PushBack ::
  "('a, 's) elem_type \<Rightarrow> 'a \<Rightarrow> Vector \<times> ('a, 's) world
     \<Rightarrow> fault option \<times> Vector \<times> ('a, 's) world" where
  "PushBack T x vw =
     (case EmplaceBack T (copy_ctor T x) vw of
        (Inl e, v', w') \<Rightarrow> (Some e, v', w')
      | (Inr r, v', w') \<Rightarrow> (None, v', w'))"

definition PushBack_move ::
  "('a, 's) elem_type \<Rightarrow> 'a \<Rightarrow> Vector \<times> ('a, 's) world
     \<Rightarrow> fault option \<times> Vector \<times> ('a, 's) world" where
  "PushBack_move T x vw =
     (case EmplaceBack T (move_from T x) vw of
        (Inl e, v', w') \<Rightarrow> (Some e, v', w')
      | (Inr r, v', w') \<Rightarrow> (None, v', w'))"

text \<open>
  \<^verbatim>\<open>Erase(pos)\<close>: asserts \<^verbatim>\<open>pos >= begin() && pos < end()\<close>, move-assigns the elements
  after \<open>pos\<close> one cell to the left, then \<^verbatim>\<open>PopBack()\<close>. It is declared
  \<^verbatim>\<open>noexcept(std::is_nothrow_move_assignable_v<T>)\<close>; an exception of the move assignment
  leaves the function as it is thrown.
\<close>

definition Erase ::
  "('a, 's) elem_type \<Rightarrow> ptr \<Rightarrow> Vector \<times> ('a, 's) world
     \<Rightarrow> (fault + ptr) \<times> Vector \<times> ('a, 's) world" where
  "Erase T pos vw =
     (case vw of (v, w) \<Rightarrow>
        if ptr_le (begin_v v) pos \<and> ptr_less pos (end_v v) then
          (case block (data_m v) w of
             None \<Rightarrow> (Inl UndefinedBehaviour, v, w)
           | Some cs \<Rightarrow>
               (case move_range T cs (ptr_diff pos (begin_v v) + 1)
                       (size_m v - (ptr_diff pos (begin_v v) + 1))
                       (ptr_diff pos (begin_v v)) (tstate w) of
                  (Some e, cs', s') \<Rightarrow>
                    (Inl e, v, put_block (data_m v) cs' (w\<lparr>tstate := s'\<rparr>))
                | (None, cs', s') \<Rightarrow>
                    (case PopBack (v, put_block (data_m v) cs' (w\<lparr>tstate := s'\<rparr>)) of
                       (Some e, v', w') \<Rightarrow> (Inl e, v', w')
                     | (None, v', w') \<Rightarrow>
                         (Inr (ptr_add (begin_v v') (ptr_diff pos (begin_v v))), v', w'))))
        else (Inl AssertFailed, v, w))"

subsection \<open>Construction, destruction, assignment\<close>

text \<open>
  \<^verbatim>\<open>explicit Vector(size_t size)\<close>: \<^verbatim>\<open>data_(size), size_(size)\<close>, then
  \<^verbatim>\<open>std::uninitialized_value_construct_n\<close>. When a constructor throws, the member
  \<^verbatim>\<open>data_\<close> is destroyed (its block released) and no vector exists.
\<close>

definition Vector_sized ::
  "('a, 's) elem_type \<Rightarrow> nat \<Rightarrow> ('a, 's) world \<Rightarrow> (fault + Vector) \<times> ('a, 's) world" where
  "Vector_sized T sz w =
     (case RawMemory_new sz w of
        Inl e \<Rightarrow> (Inl e, w)
      | Inr (data, w1) \<Rightarrow>
          (case block data w1 of
             None \<Rightarrow> (Inl UndefinedBehaviour, w1)
           | Some nb \<Rightarrow>
               (case uninitialized_value_construct_n T nb 0 sz (tstate w1) of
                  (Some e, nb1, s1) \<Rightarrow>
                    (Inl e, Deallocate (buffer_m data) (put_block data nb1 (w1\<lparr>tstate := s1\<rparr>)))
                | (None, nb1, s1) \<Rightarrow>
                    (Inr \<lparr>data_m = data, size_m = sz\<rparr>, put_block data nb1 (w1\<lparr>tstate := s1\<rparr>)))))"

text \<open>
  \<^verbatim>\<open>Vector(const Vector& other)\<close>: \<^verbatim>\<open>data_(other.size_), size_(other.size_)\<close>, then
  \<^verbatim>\<open>std::uninitialized_copy_n(other.data_.GetAddress(), size_, data_.GetAddress())\<close>.
\<close>

definition Vector_copy ::
  "('a, 's) elem_type \<Rightarrow> Vector \<Rightarrow> ('a, 's) world \<Rightarrow> (fault + Vector) \<times> ('a, 's) world" where
  "Vector_copy T other w =
     (case RawMemory_new (size_m other) w of
        Inl e \<Rightarrow> (Inl e, w)
      | Inr (data, w1) \<Rightarrow>
          (case (block (data_m other) w1, block data w1) of
             (Some src, Some nb) \<Rightarrow>
               (case uninitialized_copy_n T src 0 (size_m other) nb 0 (tstate w1) of
                  (Some e, nb1, s1) \<Rightarrow>
                    (Inl e, Deallocate (buffer_m data) (put_block data nb1 (w1\<lparr>tstate := s1\<rparr>)))
                | (None, nb1, s1) \<Rightarrow>
                    (Inr \<lparr>data_m = data, size_m = size_m other\<rparr>,
                     put_block data nb1 (w1\<lparr>tstate := s1\<rparr>)))
           | _ \<Rightarrow> (Inl UndefinedBehaviour, w1)))"

text \<open>
  The move operations of \<^verbatim>\<open>RawMemory\<close> (the assignment for \<^verbatim>\<open>this != &rhs\<close>), and
  \<^verbatim>\<open>std::swap\<close> of two distinct \<^verbatim>\<open>RawMemory\<close> objects, which is built from them: a
  temporary move-constructed from the first, two move assignments, and the destructor of the
  temporary.
\<close>

definition RawMemory_move_ctor :: "RawMemory \<Rightarrow> RawMemory \<times> RawMemory" where
  "RawMemory_move_ctor other =
     (\<lparr>buffer_m = buffer_m other, capacity_m = capacity_m other\<rparr>,
      other\<lparr>buffer_m := None, capacity_m := 0\<rparr>)"

definition RawMemory_move_assign ::
  "RawMemory \<times> RawMemory \<Rightarrow> ('a, 's) world \<Rightarrow> (RawMemory \<times> RawMemory) \<times> ('a, 's) world" where
  "RawMemory_move_assign p w =
     (case p of (this, rhs) \<Rightarrow>
        ((this\<lparr>buffer_m := buffer_m rhs, capacity_m := capacity_m rhs\<rparr>,
          rhs\<lparr>buffer_m := None, capacity_m := 0\<rparr>),
         Deallocate (buffer_m this) w))"

definition swap_RawMemory ::
  "RawMemory \<times> RawMemory \<Rightarrow> ('a, 's) world \<Rightarrow> (RawMemory \<times> RawMemory) \<times> ('a, 's) world" where
  "swap_RawMemory p w =
     (case p of (a, b) \<Rightarrow>
        (case RawMemory_move_ctor a of (tmp, a1) \<Rightarrow>
           (case RawMemory_move_assign (a1, b) w of ((a2, b1), w1) \<Rightarrow>
              (case RawMemory_move_assign (b1, tmp) w1 of ((b2, tmp1), w2) \<Rightarrow>
                 ((a2, b2), Deallocate (buffer_m tmp1) w2)))))"

text \<open>
  \<^verbatim>\<open>Vector::Swap(other)\<close> on two distinct vectors: \<^verbatim>\<open>std::swap(data_, other.data_)\<close> and
  \<^verbatim>\<open>std::swap(size_, other.size_)\<close>.
\<close>

definition Vector_Swap ::
  "Vector \<times> Vector \<Rightarrow> ('a, 's) world \<Rightarrow> (Vector \<times> Vector) \<times> ('a, 's) world" where
  "Vector_Swap p w =
     (case p of (this, other) \<Rightarrow>
        (case swap_RawMemory (data_m this, data_m other) w of
           ((d1, d2), w') \<Rightarrow>
             ((this\<lparr>data_m := d1, size_m := size_m other\<rparr>,
               other\<lparr>data_m := d2, size_m := size_m this\<rparr>), w')))"

text \<open>
  \<^verbatim>\<open>Vector(Vector&& other)\<close>: the new vector starts from the default member initialisers
  and swaps with \<open>other\<close>. The result is the new vector and \<open>other\<close> afterwards.
\<close>

definition Vector_move ::
  "Vector \<Rightarrow> ('a, 's) world \<Rightarrow> (Vector \<times> Vector) \<times> ('a, 's) world" where
  "Vector_move other w = Vector_Swap (Vector_default, other) w"

text \<open>
  \<^verbatim>\<open>~Vector()\<close>: \<^verbatim>\<open>DestroyN(data_.GetAddress(), size_)\<close>, then the destructor of
  \<^verbatim>\<open>data_\<close> releases the block.
\<close>

definition Vector_dtor :: "Vector \<times> ('a, 's) world \<Rightarrow> fault option \<times> ('a, 's) world" where
  "Vector_dtor vw =
     (case vw of (v, w) \<Rightarrow>
        (case block (data_m v) w of
           None \<Rightarrow> (Some UndefinedBehaviour, w)
         | Some cs \<Rightarrow>
             (case DestroyN cs 0 (size_m v) of
                None \<Rightarrow> (Some UndefinedBehaviour, w)
              | Some cs' \<Rightarrow> (None, Deallocate (buffer_m (data_m v)) (put_block (data_m v) cs' w)))))"

text \<open>
  The body of \<^verbatim>\<open>operator=(const Vector& rhs)\<close> under \<^verbatim>\<open>this != &rhs\<close>. With too little
  capacity: a temporary copy of \<open>rhs\<close>, \<^verbatim>\<open>Swap(temp)\<close>, and the destructor of the temporary.
  Otherwise the elements are assigned in place and the rest is copy-constructed or
  destroyed.
\<close>

definition assign_from ::
  "('a, 's) elem_type \<Rightarrow> Vector \<Rightarrow> Vector \<times> ('a, 's) world
     \<Rightarrow> fault option \<times> Vector \<times> ('a, 's) world" where
  "assign_from T rhs vw =
     (case vw of (v, w) \<Rightarrow>
        if size_m rhs > capacity_m (data_m v) then
          (case Vector_copy T rhs w of
             (Inl e, w1) \<Rightarrow> (Some e, v, w1)
           | (Inr temp, w1) \<Rightarrow>
               (case Vector_Swap (v, temp) w1 of
                  ((v', temp'), w2) \<Rightarrow>
                    (case Vector_dtor (temp', w2) of (st, w3) \<Rightarrow> (st, v', w3))))
        else
          (case (block (data_m rhs) w, block (data_m v) w) of
             (Some src, Some cs) \<Rightarrow>
               if size_m rhs \<ge> size_m v then
                 (case copy_range T src 0 (size_m v) cs 0 (tstate w) of
                    (Some e, cs1, s1) \<Rightarrow> (Some e, v, put_block (data_m v) cs1 (w\<lparr>tstate := s1\<rparr>))
                  | (None, cs1, s1) \<Rightarrow>
                      (case uninitialized_copy_n T src (size_m v) (size_m rhs - size_m v)
                              cs1 (size_m v) s1 of
                         (Some e, cs2, s2) \<Rightarrow>
                           (Some e, v, put_block (data_m v) cs2 (w\<lparr>tstate := s2\<rparr>))
                       | (None, cs2, s2) \<Rightarrow>
                           (None, v\<lparr>size_m := size_m rhs\<rparr>,
                            put_block (data_m v) cs2 (w\<lparr>tstate := s2\<rparr>))))
               else
                 (case copy_range T src 0 (size_m rhs) cs 0 (tstate w) of
                    (Some e, cs1, s1) \<Rightarrow> (Some e, v, put_block (data_m v) cs1 (w\<lparr>tstate := s1\<rparr>))
                  | (None, cs1, s1) \<Rightarrow>
                      (case DestroyN cs1 (size_m rhs) (size_m v - size_m rhs) of
                         None \<Rightarrow> (Some UndefinedBehaviour, v, w)
                       | Some cs2 \<Rightarrow>
                           (None, v\<lparr>size_m := size_m rhs\<rparr>,
                            put_block (data_m v) cs2 (w\<lparr>tstate := s1\<rparr>))))
           | _ \<Rightarrow> (Some UndefinedBehaviour, v, w)))"

text \<open>
  The assignment operators compare the addresses of the two objects, so here the vectors
  live in a store of objects and the operands are their addresses \<open>this\<close> and \<open>rhs\<close>.
  \<^verbatim>\<open>operator=(Vector&& rhs)\<close> is \<^verbatim>\<open>Swap(rhs)\<close> under \<^verbatim>\<open>this != &rhs\<close>.
\<close>

definition Vector_assign ::
  "('a, 's) elem_type \<Rightarrow> nat \<Rightarrow> nat \<Rightarrow> (nat \<rightharpoonup> Vector) \<times> ('a, 's) world
     \<Rightarrow> fault option \<times> (nat \<rightharpoonup> Vector) \<times> ('a, 's) world" where
  "Vector_assign T this rhs ow =
     (case ow of (objs, w) \<Rightarrow>
        (case (objs this, objs rhs) of
           (Some v, Some r) \<Rightarrow>
             if this \<noteq> rhs then
               (case assign_from T r (v, w) of
                  (st, v', w') \<Rightarrow> (st, objs(this \<mapsto> v'), w'))
             else (None, objs, w)
         | _ \<Rightarrow> (Some UndefinedBehaviour, objs, w)))"

definition Vector_assign_move ::
  "nat \<Rightarrow> nat \<Rightarrow> (nat \<rightharpoonup> Vector) \<times> ('a, 's) world
     \<Rightarrow> fault option \<times> (nat \<rightharpoonup> Vector) \<times> ('a, 's) world" where
  "Vector_assign_move this rhs ow =
     (case ow of (objs, w) \<Rightarrow>
        (case (objs this, objs rhs) of
           (Some v, Some r) \<Rightarrow>
             if this \<noteq> rhs then
               (case Vector_Swap (v, r) w of
                  ((v', r'), w') \<Rightarrow> (None, objs(this \<mapsto> v', rhs \<mapsto> r'), w'))
             else (None, objs, w)
         | _ \<Rightarrow> (Some UndefinedBehaviour, objs, w)))"

text \<open>\<^verbatim>\<open>Resize(new_size)\<close>.\<close>

definition Resize ::
  "('a, 's) elem_type \<Rightarrow> nat \<Rightarrow> Vector \<times> ('a, 's) world
     \<Rightarrow> fault option \<times> Vector \<times> ('a, 's) world" where
  "Resize T new_size vw =
     (case vw of (v, w) \<Rightarrow>
        if new_size < size_m v then
          (case block (data_m v) w of
             None \<Rightarrow> (Some UndefinedBehaviour, v, w)
           | Some cs \<Rightarrow>
               (case DestroyN cs new_size (size_m v - new_size) of
                  None \<Rightarrow> (Some UndefinedBehaviour, v, w)
                | Some cs' \<Rightarrow> (None, v\<lparr>size_m := new_size\<rparr>, put_block (data_m v) cs' w)))
        else
          (case Reserve T new_size (v, w) of
             (Some e, v1, w1) \<Rightarrow> (Some e, v1, w1)
           | (None, v1, w1) \<Rightarrow>
               (case block (data_m v1) w1 of
                  None \<Rightarrow> (Some UndefinedBehaviour, v1, w1)
                | Some cs \<Rightarrow>
                    (case uninitialized_value_construct_n T cs (size_m v1)
                            (new_size - size_m v1) (tstate w1) of
                       (Some e, cs1, s1) \<Rightarrow>
                         (Some e, v1, put_block (data_m v1) cs1 (w1\<lparr>tstate := s1\<rparr>))
                     | (None, cs1, s1) \<Rightarrow>
                         (None, v1\<lparr>size_m := new_size\<rparr>,
                          put_block (data_m v1) cs1 (w1\<lparr>tstate := s1\<rparr>))))))"

subsection \<open>Writing an element\<close>

text \<open>
  The statement \<^verbatim>\<open>v[index] = x\<close> of a caller: the mutable \<^verbatim>\<open>operator[]\<close> returns a
  reference, and the copy assignment of the element type assigns \<open>x\<close> to the object it refers
  to.
\<close>

definition assign_through ::
  "('a, 's) elem_type \<Rightarrow> ptr \<Rightarrow> 'a \<Rightarrow> ('a, 's) world \<Rightarrow> fault option \<times> ('a, 's) world" where
  "assign_through T p x w =
     (case fst p of
        None \<Rightarrow> (Some UndefinedBehaviour, w)
      | Some a \<Rightarrow>
          (case heap w a of
             None \<Rightarrow> (Some UndefinedBehaviour, w)
           | Some cs \<Rightarrow>
               (case read cs (snd p) of
                  None \<Rightarrow> (Some UndefinedBehaviour, w)
                | Some t \<Rightarrow>
                    (case copy_assign T t x (tstate w) of
                       ((ok, t'), s) \<Rightarrow>
                         (if ok then None else Some Thrown,
                          w\<lparr>heap := (heap w)(a \<mapsto> cs[snd p := Live t']), tstate := s\<rparr>)))))"

definition set_at ::
  "('a, 's) elem_type \<Rightarrow> Vector \<Rightarrow> nat \<Rightarrow> 'a \<Rightarrow> ('a, 's) world
     \<Rightarrow> fault option \<times> ('a, 's) world" where
  "set_at T v index x w =
     (case Vector_index v index of
        Inl e \<Rightarrow> (Some e, w)
      | Inr p \<Rightarrow> assign_through T p x w)"

section \<open>Specification vocabulary\<close>

text \<open>
  The representation invariant of a vector in a store: \<open>size_ \<le> capacity_\<close>; the buffer is
  null exactly when the capacity is 0; otherwise it is a block handed out by the allocator,
  of \<open>capacity_\<close> cells, whose first \<open>size_\<close> cells hold objects and whose other cells are raw.
\<close>

definition vinv :: "Vector \<Rightarrow> ('a, 's) world \<Rightarrow> bool" where
  "vinv v w =
     (size_m v \<le> capacity_m (data_m v) \<and>
      (case buffer_m (data_m v) of
         None \<Rightarrow> capacity_m (data_m v) = 0
       | Some a \<Rightarrow>
           0 < capacity_m (data_m v) \<and> a < next_addr w \<and>
           (case heap w a of
              None \<Rightarrow> False
            | Some cs \<Rightarrow>
                length cs = capacity_m (data_m v) \<and>
                list_all is_live (take (size_m v) cs) \<and>
                list_all (\<lambda>c. c = Raw) (drop (size_m v) cs))))"

text \<open>
  The store of a 64-bit machine: \<^verbatim>\<open>sizeof(T)\<close> is a positive \<^verbatim>\<open>size_t\<close> value, and
  the block of the vector together with the memory that is still free is less than \<open>2 ^ 63\<close>
  bytes (no object and no address space is larger).
\<close>

definition addressable :: "Vector \<Rightarrow> ('a, 's) world \<Rightarrow> bool" where
  "addressable v w =
     (0 < tsize w \<and> tsize w < 2 ^ 64 \<and>
      capacity_m (data_m v) * tsize w + avail w < 2 ^ 63)"

text \<open>
  \<open>holds v w xs\<close>: the invariant holds, the elements of the vector are \<open>xs\<close>, in this
  order, and the block is one that such a machine can have handed out.
\<close>

definition holds :: "Vector \<Rightarrow> ('a, 's) world \<Rightarrow> 'a list \<Rightarrow> bool" where
  "holds v w xs =
     (size_m v = length xs \<and> length xs \<le> capacity_m (data_m v) \<and>
      (case buffer_m (data_m v) of
         None \<Rightarrow> capacity_m (data_m v) = 0
       | Some a \<Rightarrow>
           0 < capacity_m (data_m v) \<and> a < next_addr w \<and>
           heap w a = Some (map Live xs @ replicate (capacity_m (data_m v) - length xs) Raw)) \<and>
      addressable v w)"

text \<open>
  Assumptions on the element type. A value-preserving type constructs and assigns the value
  it is given, whenever the operation returns. A type whose move constructor is declared
  \<^verbatim>\<open>noexcept\<close> has a move constructor that does not throw; a type is nothrow
  move-assignable when its move assignment never throws.
\<close>

definition value_preserving :: "('a, 's) elem_type \<Rightarrow> bool" where
  "value_preserving T =
     ((\<forall>x s. fst (copy_ctor T x s) = None \<or> fst (copy_ctor T x s) = Some x) \<and>
      (\<forall>x s. fst (fst (move_ctor T x s)) = None \<or> fst (fst (move_ctor T x s)) = Some x) \<and>
      (\<forall>t x s. \<not> fst (fst (copy_assign T t x s)) \<or> snd (fst (copy_assign T t x s)) = x) \<and>
      (\<forall>t x s. \<not> fst (fst (move_assign T t x s)) \<or> fst (snd (fst (move_assign T t x s))) = x))"

definition noexcept_sound :: "('a, 's) elem_type \<Rightarrow> bool" where
  "noexcept_sound T =
     (is_nothrow_move_constructible T \<longrightarrow> (\<forall>x s. fst (fst (move_ctor T x s)) \<noteq> None))"

definition nothrow_move_assignable :: "('a, 's) elem_type \<Rightarrow> bool" where
  "nothrow_move_assignable T = (\<forall>t x s. fst (fst (move_assign T t x s)))"

text \<open>An element type none of whose operations ever throws.\<close>

definition never_throws :: "('a, 's) elem_type \<Rightarrow> bool" where
  "never_throws T =
     ((\<forall>s. fst (value_init T s) \<noteq> None) \<and>
      (\<forall>x s. fst (copy_ctor T x s) \<noteq> None) \<and>
      (\<forall>x s. fst (fst (move_ctor T x s)) \<noteq> None) \<and>
      (\<forall>t x s. fst (fst (copy_assign T t x s))) \<and>
      (\<forall>t x s. fst (fst (move_assign T t x s))))"


subsection \<open>Element types for the examples\<close>

text \<open>
  A trivially copyable element type in the style of \<^verbatim>\<open>int\<close>: nothing throws, a move is a
  copy, \<open>d\<close> is the value of \<^verbatim>\<open>T()\<close>. In the stores of the examples a cell has 4
  bytes.
\<close>

definition T_plain :: "'a \<Rightarrow> ('a, 's) elem_type" where
  "T_plain d =
     \<lparr>is_nothrow_move_constructible = True,
      is_copy_constructible = True,
      value_init = (\<lambda>s. (Some d, s)),
      copy_ctor = (\<lambda>x s. (Some x, s)),
      move_ctor = (\<lambda>x s. ((Some x, x), s)),
      copy_assign = (\<lambda>t x s. ((True, x), s)),
      move_assign = (\<lambda>t x s. ((True, x, x), s))\<rparr>"

text \<open>
  A family of element types in the style of a fault-injecting test type. The state is a
  schedule: every operation that may throw takes the head of the schedule and throws when it
  is \<open>True\<close>; with the empty schedule nothing throws. \<open>nothrow\<close> and \<open>copyable\<close> are the two
  traits; with \<open>nothrow\<close> the move constructor and the move assignment are \<^verbatim>\<open>noexcept\<close> and
  do not consult the schedule. \<open>d\<close> is the value of \<^verbatim>\<open>T()\<close> and \<open>residue x\<close> the value a
  move leaves in a source that held \<open>x\<close>.
\<close>

definition step :: "bool list \<Rightarrow> bool \<times> bool list" where
  "step s = (case s of [] \<Rightarrow> (False, []) | b # bs \<Rightarrow> (b, bs))"

definition T_probe :: "bool \<Rightarrow> bool \<Rightarrow> 'a \<Rightarrow> ('a \<Rightarrow> 'a) \<Rightarrow> ('a, bool list) elem_type" where
  "T_probe nothrow copyable d residue =
     \<lparr>is_nothrow_move_constructible = nothrow,
      is_copy_constructible = copyable,
      value_init = (\<lambda>s. case step s of (True, s') \<Rightarrow> (None, s') | (False, s') \<Rightarrow> (Some d, s')),
      copy_ctor = (\<lambda>x s. case step s of (True, s') \<Rightarrow> (None, s') | (False, s') \<Rightarrow> (Some x, s')),
      move_ctor = (\<lambda>x s. if nothrow then ((Some x, residue x), s)
                    else (case step s of (True, s') \<Rightarrow> ((None, x), s')
                          | (False, s') \<Rightarrow> ((Some x, residue x), s'))),
      copy_assign = (\<lambda>t x s. case step s of (True, s') \<Rightarrow> ((False, t), s')
                          | (False, s') \<Rightarrow> ((True, x), s')),
      move_assign = (\<lambda>t x s. if nothrow then ((True, x, residue x), s)
                      else (case step s of (True, s') \<Rightarrow> ((False, t, x), s')
                            | (False, s') \<Rightarrow> ((True, x, residue x), s')))\<rparr>"

text \<open>
  A type that can only be moved, whose move constructor may throw and leaves \<open>0\<close> in the
  source.
\<close>

definition T_move_only :: "(nat, bool list) elem_type" where
  "T_move_only = T_probe False False 0 (\<lambda>x. 0)"

text \<open>An empty store with \<open>1000\<close> bytes to hand out, and the schedule \<open>s\<close>.\<close>

definition world0 :: "bool list \<Rightarrow> ('a, bool list) world" where
  "world0 s = \<lparr>heap = Map.empty, next_addr = 1, avail = 1000, leaked = 0, tstate = s,
               tsize = 4\<rparr>"

text \<open>
  A vector with a free cell: three elements in a block of four cells at address 3.
\<close>

definition vec3 :: Vector where
  "vec3 = \<lparr>data_m = \<lparr>buffer_m = Some 3, capacity_m = 4\<rparr>, size_m = 3\<rparr>"

definition world3 :: "bool list \<Rightarrow> (nat, bool list) world" where
  "world3 s = \<lparr>heap = [3 \<mapsto> [Live 1, Live 2, Live 3, Raw]], next_addr = 4, avail = 984,
               leaked = 0, tstate = s, tsize = 4\<rparr>"

text \<open>
  \<open>N\<close> consecutive calls of \<^verbatim>\<open>PushBack(const T&)\<close>, one per element of the list, stopping
  at the first call that does not return; the result lists the capacity after every call.
\<close>

fun PushBack_all ::
  "('a, 's) elem_type \<Rightarrow> 'a list \<Rightarrow> Vector \<times> ('a, 's) world
     \<Rightarrow> fault option \<times> nat list \<times> Vector \<times> ('a, 's) world" where
  "PushBack_all T [] vw = (None, [], vw)"
| "PushBack_all T (x # xs) vw =
     (case PushBack T x vw of
        (Some e, vw') \<Rightarrow> (Some e, [], vw')
      | (None, vw') \<Rightarrow>
          (case PushBack_all T xs vw' of
             (r, caps, vw'') \<Rightarrow> (r, Capacity (fst vw') # caps, vw'')))"

text \<open>
  The first power of two that is at least \<open>n\<close>, found by doubling from 1 (the words of
  the specification of the growth policy).
\<close>

function pow2_from :: "nat \<Rightarrow> nat \<Rightarrow> nat" where
  "pow2_from p n = (if p = 0 \<or> n \<le> p then p else pow2_from (2 * p) n)"
  by pat_completeness auto
termination
  by (relation "measure (\<lambda>(p, n). n - p)") auto

definition first_pow2 :: "nat \<Rightarrow> nat" where
  "first_pow2 n = pow2_from 1 n"

text \<open>A full vector: two elements in a block of two cells at address 2.\<close>

definition vec2 :: Vector where
  "vec2 = \<lparr>data_m = \<lparr>buffer_m = Some 2, capacity_m = 2\<rparr>, size_m = 2\<rparr>"

definition world2 :: "bool list \<Rightarrow> (nat, bool list) world" where
  "world2 s = \<lparr>heap = [2 \<mapsto> [Live 1, Live 2]], next_addr = 3, avail = 992,
               leaked = 0, tstate = s, tsize = 4\<rparr>"

section \<open>Properties\<close>

subsection \<open>The algorithms on cells\<close>

lemma low_bits_mod: "low_bits k x = x mod 2 ^ k"
proof (induction k arbitrary: x)
  case 0
  then show ?case by simp
next
  case (Suc k)
  have "x mod 2 ^ Suc k = x mod 2 + 2 * (x div 2 mod 2 ^ k)"
    by (simp add: mod_mult2_eq)
  with Suc show ?case by simp
qed

lemma size_t_mul_code [code]: "size_t_mul a b = low_bits 64 (a * b)"
  by (simp add: size_t_mul_def low_bits_mod)

lemma size_t_mul_fits: "a * b < 2 ^ 64 \<Longrightarrow> size_t_mul a b = a * b"
  by (simp add: size_t_mul_def)

lemma addressable_code [code]:
  "addressable v w =
     (0 < tsize w \<and> low_bits 64 (tsize w) = tsize w \<and>
      low_bits 63 (capacity_m (data_m v) * tsize w + avail w)
        = capacity_m (data_m v) * tsize w + avail w)"
  by (auto simp: addressable_def low_bits_mod)

lemma read_Some: "read cs i = Some x \<longleftrightarrow> i < length cs \<and> cs ! i = Live x"
  by (auto simp: read_def split: cell.splits)

lemma ucopy_length:
  "uninitialized_copy_n T src f n dst d s = (r, dst', s') \<Longrightarrow> length dst' = length dst"
proof (induction n arbitrary: f dst d s r dst' s')
  case 0
  then show ?case by simp
next
  case (Suc n)
  then show ?case
    by (auto split: option.splits if_splits prod.splits)
qed


lemma ucopy_ok:
  "uninitialized_copy_n T src f n dst d s = (None, dst', s') \<Longrightarrow>
   \<exists>ys. length ys = n \<and>
        dst' = take d dst @ map Live ys @ drop (d + n) dst \<and>
        (value_preserving T \<longrightarrow> take n (drop f src) = map Live ys)"
proof (induction n arbitrary: f dst d s dst' s')
  case 0
  then show ?case by simp
next
  case (Suc n)
  from Suc.prems obtain x where rd: "read src f = Some x"
    by (auto split: option.splits)
  from Suc.prems rd have dl: "d < length dst" by (auto split: if_splits)
  from Suc.prems rd dl obtain y s1 where c: "copy_ctor T x s = (Some y, s1)"
    by (auto split: option.splits prod.splits)
  from Suc.prems rd dl c have rec:
    "uninitialized_copy_n T src (Suc f) n (dst[d := Live y]) (Suc d) s1 = (None, dst', s')"
    by (auto split: option.splits prod.splits)
  from Suc.IH[OF rec] obtain ys where ys: "length ys = n"
    "dst' = take (Suc d) (dst[d := Live y]) @ map Live ys @ drop (Suc d + n) (dst[d := Live y])"
    "value_preserving T \<longrightarrow> take n (drop (Suc f) src) = map Live ys"
    by auto
  have 1: "take (Suc d) (dst[d := Live y]) = take d dst @ [Live y]"
    using dl by (simp add: take_Suc_conv_app_nth)
  have 2: "value_preserving T \<longrightarrow> y = x"
    using c unfolding value_preserving_def by (metis fst_conv option.distinct(1) option.inject)
  have 3: "take (Suc n) (drop f src) = Live x # take n (drop (Suc f) src)"
    using rd by (simp add: read_Some Cons_nth_drop_Suc[symmetric])
  show ?case
    by (rule exI[of _ "y # ys"]) (use ys 1 2 3 in auto)
qed


lemma umove_length:
  "uninitialized_move_n T src f n dst d s = (r, src', dst', s') \<Longrightarrow>
   length dst' = length dst \<and> length src' = length src"
proof (induction n arbitrary: f src dst d s r src' dst' s')
  case 0
  then show ?case by simp
next
  case (Suc n)
  then show ?case
    by (auto split: option.splits if_splits prod.splits)
qed

lemma umove_ok:
  "uninitialized_move_n T src f n dst d s = (None, src', dst', s') \<Longrightarrow>
   \<exists>ys rs. length ys = n \<and> length rs = n \<and>
        dst' = take d dst @ map Live ys @ drop (d + n) dst \<and>
        src' = take f src @ map Live rs @ drop (f + n) src \<and>
        (value_preserving T \<longrightarrow> take n (drop f src) = map Live ys)"
proof (induction n arbitrary: f src dst d s src' dst' s')
  case 0
  then show ?case by simp
next
  case (Suc n)
  from Suc.prems obtain x where rd: "read src f = Some x"
    by (auto split: option.splits)
  from Suc.prems rd have dl: "d < length dst" by (auto split: if_splits)
  from rd have fl: "f < length src" and sf: "src ! f = Live x" by (auto simp: read_Some)
  from Suc.prems rd dl obtain y r s1 where c: "move_ctor T x s = ((Some y, r), s1)"
    by (auto split: option.splits prod.splits)
  from Suc.prems rd dl c have rec:
    "uninitialized_move_n T (src[f := Live r]) (Suc f) n (dst[d := Live y]) (Suc d) s1
       = (None, src', dst', s')"
    by (auto split: option.splits prod.splits)
  from Suc.IH[OF rec] obtain ys rs where ys: "length ys = n" "length rs = n"
    "dst' = take (Suc d) (dst[d := Live y]) @ map Live ys @ drop (Suc d + n) (dst[d := Live y])"
    "src' = take (Suc f) (src[f := Live r]) @ map Live rs @ drop (Suc f + n) (src[f := Live r])"
    "value_preserving T \<longrightarrow> take n (drop (Suc f) (src[f := Live r])) = map Live ys"
    by auto
  have 1: "take (Suc d) (dst[d := Live y]) = take d dst @ [Live y]"
    using dl by (simp add: take_Suc_conv_app_nth)
  have q1: "take (Suc f) (src[f := Live r]) = take f src @ [Live r]"
    using fl by (simp add: take_Suc_conv_app_nth)
  have 2: "value_preserving T \<longrightarrow> y = x"
    using c unfolding value_preserving_def
    by (metis fst_conv option.distinct(1) option.inject)
  have 3: "take (Suc n) (drop f src) = Live x # take n (drop (Suc f) src)"
    using fl sf by (simp add: Cons_nth_drop_Suc[symmetric])
  show ?case
    by (rule exI[of _ "y # ys"], rule exI[of _ "r # rs"]) (use ys 1 q1 2 3 in auto)
qed



lemma DestroyN_live:
  "i = length pre \<Longrightarrow> n = length ys \<Longrightarrow>
   DestroyN (pre @ map Live ys @ post) i n = Some (pre @ replicate n Raw @ post)"
proof (induction ys arbitrary: pre i n)
  case Nil
  then show ?case by simp
next
  case (Cons y ys)
  have "Destroy (pre @ map Live (y # ys) @ post) i = Some ((pre @ [Raw]) @ map Live ys @ post)"
    using Cons.prems by (simp add: Destroy_def is_live_def nth_append)
  moreover have "DestroyN ((pre @ [Raw]) @ map Live ys @ post) (Suc i) (length ys)
      = Some ((pre @ [Raw]) @ replicate (length ys) Raw @ post)"
    using Cons.prems by (intro Cons.IH) auto
  ultimately show ?case using Cons.prems by (simp add: replicate_app_Cons_same)
qed

lemma holds_block:
  "holds v w xs \<Longrightarrow>
   block (data_m v) w = Some (map Live xs @ replicate (capacity_m (data_m v) - length xs) Raw)"
  by (auto simp: holds_def block_def split: option.splits)


lemma map_Live_eq: "map Live xs = map Live ys \<longleftrightarrow> xs = ys"
  by (simp add: inj_map_eq_map inj_def)

lemma holds_addressable: "holds v w xs \<Longrightarrow> addressable v w"
  by (simp add: holds_def)

lemma addressable_update [simp]:
  "addressable (v\<lparr>size_m := n\<rparr>) w = addressable v w"
  "addressable v (w\<lparr>heap := h\<rparr>) = addressable v w"
  "addressable v (w\<lparr>tstate := s\<rparr>) = addressable v w"
  "addressable v (w\<lparr>leaked := l\<rparr>) = addressable v w"
  "addressable v (w\<lparr>next_addr := a\<rparr>) = addressable v w"
  by (simp_all add: addressable_def)

lemma addressable_mono:
  "addressable v w \<Longrightarrow> capacity_m (data_m v') \<le> capacity_m (data_m v) \<Longrightarrow>
   tsize w' = tsize w \<Longrightarrow> avail w' \<le> avail w \<Longrightarrow> addressable v' w'"
proof -
  assume a: "addressable v w" and c: "capacity_m (data_m v') \<le> capacity_m (data_m v)"
    and t: "tsize w' = tsize w" and av: "avail w' \<le> avail w"
  from c have m: "capacity_m (data_m v') * tsize w \<le> capacity_m (data_m v) * tsize w"
    by (rule mult_le_mono1)
  have "capacity_m (data_m v') * tsize w' + avail w' \<le> capacity_m (data_m v) * tsize w + avail w"
    unfolding t by (rule add_mono[OF m av])
  also have "\<dots> < 2 ^ 63" using a by (simp add: addressable_def)
  finally have b: "capacity_m (data_m v') * tsize w' + avail w' < 2 ^ 63" .
  from a t have "0 < tsize w'" "tsize w' < 2 ^ 64" by (simp_all add: addressable_def)
  with b show ?thesis unfolding addressable_def by blast
qed

lemma addressable_no_wrap:
  assumes "addressable v w" and "n \<le> 2 * capacity_m (data_m v) \<or> n \<le> 1"
  shows "n * tsize w < 2 ^ 64"
proof -
  have a: "capacity_m (data_m v) * tsize w < 2 ^ 63" "tsize w < 2 ^ 64"
    using assms(1) by (simp_all add: addressable_def)
  have p: "(2::nat) ^ 64 = 2 * 2 ^ 63" by simp
  from assms(2) show ?thesis
  proof
    assume "n \<le> 2 * capacity_m (data_m v)"
    then have "n * tsize w \<le> (2 * capacity_m (data_m v)) * tsize w"
      by (rule mult_le_mono1)
    also have "\<dots> = 2 * (capacity_m (data_m v) * tsize w)" by (simp only: mult.assoc)
    also have "\<dots> < 2 * 2 ^ 63" using a(1) by linarith
    finally show ?thesis unfolding p .
  next
    assume "n \<le> 1"
    then have "n * tsize w \<le> 1 * tsize w" by (rule mult_le_mono1)
    with a(2) show ?thesis by linarith
  qed
qed


text \<open>A successful allocation whose size in bytes fits \<^verbatim>\<open>size_t\<close>.\<close>

lemma RawMemory_new_Inr:
  "RawMemory_new n w = Inr (m, w1) \<Longrightarrow> n \<noteq> 0 \<Longrightarrow> 0 < tsize w \<Longrightarrow> n * tsize w < 2 ^ 64 \<Longrightarrow>
   m = \<lparr>buffer_m = Some (next_addr w), capacity_m = n\<rparr> \<and>
   w1 = w\<lparr>heap := (heap w)(next_addr w \<mapsto> replicate n Raw),
          next_addr := Suc (next_addr w), avail := avail w - n * tsize w\<rparr> \<and>
   n * tsize w \<le> avail w"
  by (auto simp: RawMemory_new_def Allocate_def operator_new_def size_t_mul_fits
           split: if_splits)

lemma RawMemory_new_fits:
  "0 < tsize w \<Longrightarrow> n * tsize w < 2 ^ 64 \<Longrightarrow> n * tsize w \<le> avail w \<Longrightarrow> n \<noteq> 0 \<Longrightarrow>
   RawMemory_new n w =
     Inr (\<lparr>buffer_m = Some (next_addr w), capacity_m = n\<rparr>,
          w\<lparr>heap := (heap w)(next_addr w \<mapsto> replicate n Raw),
            next_addr := Suc (next_addr w), avail := avail w - n * tsize w\<rparr>)"
  by (simp add: RawMemory_new_def Allocate_def operator_new_def size_t_mul_fits)

lemma transfer_ok:
  assumes "(if is_nothrow_move_constructible T \<or> \<not> is_copy_constructible T
            then uninitialized_move_n T old 0 n nb 0 s
            else (case uninitialized_copy_n T old 0 n nb 0 s of (r, nb', s') \<Rightarrow> (r, old, nb', s')))
           = (None, old1, nb1, s1)"
  shows "\<exists>ys rs. length ys = n \<and> length rs = n \<and>
        nb1 = map Live ys @ drop n nb \<and>
        (old1 = map Live rs @ drop n old \<or> old1 = old) \<and>
        (value_preserving T \<longrightarrow> take n old = map Live ys)"
proof (cases "is_nothrow_move_constructible T \<or> \<not> is_copy_constructible T")
  case True
  with assms have "uninitialized_move_n T old 0 n nb 0 s = (None, old1, nb1, s1)" by simp
  from umove_ok[OF this] show ?thesis by auto
next
  case False
  with assms have "uninitialized_copy_n T old 0 n nb 0 s = (None, nb1, s1)" and "old1 = old"
    by (auto split: prod.splits)
  from ucopy_ok[OF this(1)] this(2) show ?thesis by auto
qed

lemma Reserve_ok:
  assumes h: "holds v w xs" and lt: "capacity_m (data_m v) < n"
    and nw: "n * tsize w < 2 ^ 64"
    and r: "Reserve T n (v, w) = (None, v', w')"
  shows "\<exists>ys. length ys = length xs \<and> (value_preserving T \<longrightarrow> ys = xs) \<and> holds v' w' ys \<and>
           data_m v' = \<lparr>buffer_m = Some (next_addr w), capacity_m = n\<rparr>"
proof -
  define k where "k = capacity_m (data_m v) - length xs"
  define old where "old = map Live xs @ replicate k Raw"
  define nd where "nd = \<lparr>buffer_m = Some (next_addr w), capacity_m = n\<rparr>"
  define w1 where "w1 = w\<lparr>heap := (heap w)(next_addr w \<mapsto> replicate n Raw),
          next_addr := Suc (next_addr w), avail := avail w - n * tsize w\<rparr>"
  have n0: "n \<noteq> 0" using lt by simp
  have ad: "addressable v w" by (rule holds_addressable[OF h])
  then have t0: "0 < tsize w" by (simp add: addressable_def)
  have sz: "size_m v = length xs" using h by (simp add: holds_def)
  have cap: "length xs + k = capacity_m (data_m v)" using h by (simp add: holds_def k_def)
  from r lt obtain m w1' where new: "RawMemory_new n w = Inr (m, w1')"
    by (auto simp: Reserve_def split: sum.splits)
  from RawMemory_new_Inr[OF new n0 t0 nw] have m: "m = nd" and w1': "w1' = w1"
    and fit: "n * tsize w \<le> avail w"
    by (simp_all add: nd_def w1_def)
  have fresh: "buffer_m (data_m v) \<noteq> Some (next_addr w)"
    using h by (auto simp: holds_def split: option.splits)
  have b_old: "block (data_m v) w1 = Some old"
    using holds_block[OF h] fresh by (auto simp: block_def w1_def old_def k_def split: option.splits)
  have b_new: "block nd w1 = Some (replicate n Raw)"
    by (simp add: block_def nd_def w1_def)
  let ?tr = "(if is_nothrow_move_constructible T \<or> \<not> is_copy_constructible T
            then uninitialized_move_n T old 0 (length xs) (replicate n Raw) 0 (tstate w1)
            else (case uninitialized_copy_n T old 0 (length xs) (replicate n Raw) 0 (tstate w1) of
                    (r, nb', s') \<Rightarrow> (r, old, nb', s')))"
  obtain st old1 nb1 s1 where tr: "?tr = (st, old1, nb1, s1)" by (cases ?tr)
  have st: "st = None"
    using r lt new m w1' b_old b_new tr sz
    by (auto simp: Reserve_def split: option.splits prod.splits if_splits)
  from transfer_ok[OF tr[unfolded st]] obtain ys rs where yr:
    "length ys = length xs" "length rs = length xs"
    "nb1 = map Live ys @ drop (length xs) (replicate n Raw)"
    "old1 = map Live rs @ drop (length xs) old \<or> old1 = old"
    "value_preserving T \<longrightarrow> take (length xs) old = map Live ys"
    by blast
  have old1: "\<exists>zs. length zs = length xs \<and> old1 = [] @ map Live zs @ replicate k Raw"
    using yr(2,4) by (auto simp: old_def)
  then obtain zs where zs: "length zs = length xs" "old1 = [] @ map Live zs @ replicate k Raw"
    by blast
  have d: "DestroyN old1 0 (length xs) = Some ([] @ replicate (length xs) Raw @ replicate k Raw)"
    unfolding zs(2) using zs(1) by (intro DestroyN_live) auto
  have res: "v' = v\<lparr>data_m := nd\<rparr>"
    "w' = Deallocate (buffer_m (data_m v))
            (write_back v nd (replicate (length xs) Raw @ replicate k Raw) nb1 s1 w1)"
    using r lt new m w1' b_old b_new tr st sz d
    by (auto simp: Reserve_def RawMemory_Swap_def nd_def split: option.splits prod.splits if_splits)
  have ysxs: "value_preserving T \<longrightarrow> ys = xs"
    using yr(5) by (auto simp: old_def map_Live_eq)
  have lb: "buffer_m (data_m v) = Some a \<Longrightarrow>
      length (replicate (length xs) (Raw :: 'a cell) @ replicate k Raw) = capacity_m (data_m v)"
    for a using cap by simp
  have av': "n * tsize w + avail w' = capacity_m (data_m v) * tsize w + avail w"
  proof (cases "buffer_m (data_m v)")
    case None
    with h have "capacity_m (data_m v) = 0" by (simp add: holds_def)
    with None res(2) fit show ?thesis
      by (simp add: w1_def write_back_def put_block_def Deallocate_def nd_def)
  next
    case (Some a)
    with res(2) fit fresh cap show ?thesis
      by (simp add: w1_def write_back_def put_block_def Deallocate_def nd_def)
  qed
  have ts': "tsize w' = tsize w"
    using res(2)
    by (simp add: w1_def write_back_def put_block_def Deallocate_def nd_def
          split: option.splits)
  have ad': "addressable v' w'"
    using ad av' ts' res(1) by (simp add: addressable_def nd_def)
  have "holds v' w' ys"
    using res yr(1,3) lt h fresh ad'
    by (auto simp: holds_def nd_def w1_def write_back_def put_block_def Deallocate_def
          split: option.splits)
  with yr(1) ysxs res show ?thesis by (auto simp: nd_def)
qed

subsection \<open>Reserve\<close>

text \<open>
  \<^verbatim>\<open>Reserve(n)\<close> with \<open>n\<close> at most the capacity returns at once and changes nothing.
  With \<open>n\<close> above the capacity and \<open>n * sizeof(T)\<close> within \<^verbatim>\<open>size_t\<close>, a call that
  returns leaves a vector of capacity \<open>n\<close> with the same size and the same elements.
\<close>

lemma Reserve_result:
  "(n \<le> Capacity v \<longrightarrow> Reserve T n (v, w) = (None, v, w)) \<and>
   (holds v w xs \<and> Capacity v < n \<and> n * tsize w < 2 ^ 64 \<and> value_preserving T \<and>
    Reserve T n (v, w) = (None, v', w')
      \<longrightarrow> holds v' w' xs \<and> Capacity v' = n \<and> Size v' = Size v)"
proof (intro conjI impI)
  assume "n \<le> Capacity v"
  then show "Reserve T n (v, w) = (None, v, w)"
    by (simp add: Reserve_def Capacity_def)
next
  assume a: "holds v w xs \<and> Capacity v < n \<and> n * tsize w < 2 ^ 64 \<and> value_preserving T \<and>
    Reserve T n (v, w) = (None, v', w')"
  then obtain ys where ys: "length ys = length xs" "value_preserving T \<longrightarrow> ys = xs"
    "holds v' w' ys" "data_m v' = \<lparr>buffer_m = Some (next_addr w), capacity_m = n\<rparr>"
    using Reserve_ok[of v w xs n T v' w'] by (auto simp: Capacity_def)
  with a show "holds v' w' xs" "Capacity v' = n" "Size v' = Size v"
    by (auto simp: Capacity_def Size_def holds_def)
qed

lemma value_preserving_probe: "value_preserving (T_probe a b d r)"
  by (auto simp: value_preserving_def T_probe_def step_def split: list.splits bool.splits)

lemma holds_vec3: "holds vec3 (world3 s) [1, 2, 3]"
  by (simp add: holds_def addressable_def vec3_def world3_def)

subsection \<open>Element access\<close>

text \<open>
  C5. The mutable \<^verbatim>\<open>operator[]\<close> asserts \<^verbatim>\<open>index < size_\<close>; the const overload only
  reaches the assertion \<^verbatim>\<open>index < capacity_\<close> of \<^verbatim>\<open>RawMemory\<close>. After
  \<^verbatim>\<open>Reserve(2)\<close> and \<^verbatim>\<open>PushBack(7)\<close> on an empty vector (size 1, capacity 2), index 1
  fails the assertion of the mutable overload, and the const overload returns a reference to
  the raw cell 1.
\<close>

theorem Vector_index_const_unchecked:
  "(case PushBack (T_probe True True 0 id) (7::nat)
           (snd (Reserve (T_probe True True 0 id) 2 (Vector_default, world0 []))) of
      (st, v, w) \<Rightarrow>
        st = None \<and> Size v = 1 \<and> Capacity v = 2 \<and>
        block (data_m v) w = Some [Live 7, Raw] \<and>
        Vector_index v 1 = Inl AssertFailed \<and>
        Vector_index_const v 1 = Inr (Some 1, 1))"
  by code_simp

lemma Vector_index_checked: "size_m v \<le> i \<Longrightarrow> Vector_index v i = Inl AssertFailed"
  by (simp add: Vector_index_def)

lemma Vector_index_const_checked:
  "Vector_index_const v i = Inl AssertFailed \<longleftrightarrow> capacity_m (data_m v) \<le> i"
  by (simp add: Vector_index_const_def RawMemory_index_const_def RawMemory_index_def)

subsection \<open>Self-assignment\<close>

text \<open>
  C10. Copy-assigning and move-assigning a vector to itself change nothing: both operators
  compare \<^verbatim>\<open>this\<close> with \<^verbatim>\<open>&rhs\<close> first. Every vector of the store, and with it the size,
  the capacity and the elements of the operand, and the store itself are as before.
\<close>

theorem self_assignment:
  "objs this = Some v \<Longrightarrow>
   Vector_assign T this this (objs, w) = (None, objs, w) \<and>
   Vector_assign_move this this (objs, w) = (None, objs, w)"
  by (simp add: Vector_assign_def Vector_assign_move_def)

theorem self_assignment_witness:
  "[0 \<mapsto> vec3] 0 = Some vec3 \<and>
   Vector_assign (T_probe False True 0 id) 0 0 ([0 \<mapsto> vec3], world3 [])
     = (None, [0 \<mapsto> vec3], world3 []) \<and>
   Vector_assign_move 0 0 ([0 \<mapsto> vec3], world3 []) = (None, [0 \<mapsto> vec3], world3 [])"
  using self_assignment[of "[0 \<mapsto> vec3]" 0 vec3 "T_probe False True 0 id" "world3 []"]
  by simp

subsection \<open>Shifting elements and the reallocating insertion\<close>

lemma move_backward_length:
  "move_backward T cs f n dl s = (r, cs', s') \<Longrightarrow> length cs' = length cs"
proof (induction n arbitrary: cs dl s r cs' s')
  case 0
  then show ?case by simp
next
  case (Suc n)
  then show ?case
    by (auto split: option.splits if_splits prod.splits bool.splits)
qed

lemma move_backward_nothrow:
  "move_backward T cs f n dl s = (Some e, cs', s') \<Longrightarrow> nothrow_move_assignable T \<Longrightarrow>
   e = UndefinedBehaviour"
proof (induction n arbitrary: cs dl s cs' s')
  case 0
  then show ?case by simp
next
  case (Suc n)
  from Suc.prems(2) have nt: "\<And>t x s. fst (fst (move_assign T t x s))"
    by (simp add: nothrow_move_assignable_def)
  show ?case
  proof (cases "dl = 0 \<or> read cs (f + n) = None \<or> read cs (dl - 1) = None")
    case True
    with Suc.prems(1) show ?thesis by (auto split: option.splits)
  next
    case False
    then obtain x t where rd: "dl \<noteq> 0" "read cs (f + n) = Some x" "read cs (dl - 1) = Some t"
      by auto
    obtain b t' x' s1 where m: "move_assign T t x s = ((b, t', x'), s1)"
      by (cases "move_assign T t x s") auto
    with nt[of t x s] have b by simp
    with Suc.prems(1) rd m have
      "move_backward T (cs[f + n := Live x', dl - 1 := Live t']) f n (dl - 1) s1 = (Some e, cs', s')"
      by simp
    from Suc.IH[OF this Suc.prems(2)] show ?thesis .
  qed
qed

lemma move_backward_ok:
  "move_backward T cs f n dl s = (None, cs', s') \<Longrightarrow> dl = f + n + 1 \<Longrightarrow> f + n < length cs \<Longrightarrow>
   \<exists>c ys. length ys = n \<and> cs' = take f cs @ c # map Live ys @ drop (f + n + 1) cs \<and>
     (n = 0 \<longrightarrow> c = cs ! f) \<and> (0 < n \<longrightarrow> is_live c) \<and>
     (value_preserving T \<longrightarrow> map Live ys = take n (drop f cs))"
proof (induction n arbitrary: cs dl s cs' s')
  case 0
  then show ?case by (simp add: Cons_nth_drop_Suc)
next
  case (Suc n)
  from Suc.prems obtain x t where rd: "read cs (f + n) = Some x" "read cs (f + n + 1) = Some t"
    by (auto split: option.splits)
  then have lx: "f + n + 1 < length cs" "cs ! (f + n) = Live x"
    by (auto simp: read_Some)
  from Suc.prems rd obtain t' x' s1 where m: "move_assign T t x s = ((True, t', x'), s1)"
    by (auto split: prod.splits bool.splits)
  define cs1 where "cs1 = cs[f + n := Live x', f + n + 1 := Live t']"
  from Suc.prems rd m have rec: "move_backward T cs1 f n (f + n + 1) s1 = (None, cs', s')"
    by (simp add: cs1_def)
  have l1: "f + n < length cs1" using lx by (simp add: cs1_def)
  from Suc.IH[OF rec _ l1] obtain c ys where ih: "length ys = n"
    "cs' = take f cs1 @ c # map Live ys @ drop (f + n + 1) cs1"
    "n = 0 \<longrightarrow> c = cs1 ! f" "0 < n \<longrightarrow> is_live c"
    "value_preserving T \<longrightarrow> map Live ys = take n (drop f cs1)"
    by auto
  have a: "take f cs1 = take f cs" by (simp add: cs1_def)
  have b: "drop (f + n + 1) cs1 = Live t' # drop (f + n + 2) cs"
    using lx by (simp add: cs1_def drop_update_swap Cons_nth_drop_Suc[symmetric])
  have c: "is_live c"
    using ih(3,4) lx by (cases "n = 0") (auto simp: cs1_def is_live_def)
  have d: "take n (drop f cs1) = take n (drop f cs)"
    by (simp add: cs1_def drop_update_swap)
  have e: "take (Suc n) (drop f cs) = take n (drop f cs) @ [Live x]"
    using lx by (simp add: take_Suc_conv_app_nth)
  have v: "value_preserving T \<longrightarrow> t' = x"
    using m unfolding value_preserving_def by (metis fst_conv snd_conv)
  show ?case
    by (rule exI[of _ c], rule exI[of _ "ys @ [t']"]) (use ih a b c d e v in auto)
qed

lemma move_range_length:
  "move_range T cs f n d s = (r, cs', s') \<Longrightarrow> length cs' = length cs"
proof (induction n arbitrary: cs f d s r cs' s')
  case 0
  then show ?case by simp
next
  case (Suc n)
  then show ?case
    by (auto split: option.splits if_splits prod.splits bool.splits)
qed

lemma move_range_nothrow:
  "move_range T cs f n d s = (Some e, cs', s') \<Longrightarrow> nothrow_move_assignable T \<Longrightarrow>
   e = UndefinedBehaviour"
proof (induction n arbitrary: cs f d s cs' s')
  case 0
  then show ?case by simp
next
  case (Suc n)
  from Suc.prems(2) have nt: "\<And>t x s. fst (fst (move_assign T t x s))"
    by (simp add: nothrow_move_assignable_def)
  show ?case
  proof (cases "read cs f = None \<or> read cs d = None")
    case True
    with Suc.prems(1) show ?thesis by (auto split: option.splits)
  next
    case False
    then obtain x t where rd: "read cs f = Some x" "read cs d = Some t"
      by auto
    obtain b t' x' s1 where m: "move_assign T t x s = ((b, t', x'), s1)"
      by (cases "move_assign T t x s") auto
    with nt[of t x s] have b by simp
    with Suc.prems(1) rd m have
      "move_range T (cs[f := Live x', d := Live t']) (Suc f) n (Suc d) s1 = (Some e, cs', s')"
      by simp
    from Suc.IH[OF this Suc.prems(2)] show ?thesis .
  qed
qed

lemma move_range_ok:
  "move_range T cs f n d s = (None, cs', s') \<Longrightarrow> f = Suc d \<Longrightarrow> d + n < length cs \<Longrightarrow>
   \<exists>c ys. length ys = n \<and> cs' = take d cs @ map Live ys @ c # drop (d + n + 1) cs \<and>
     (n = 0 \<longrightarrow> c = cs ! d) \<and> (0 < n \<longrightarrow> is_live c) \<and>
     (value_preserving T \<longrightarrow> map Live ys = take n (drop (Suc d) cs))"
proof (induction n arbitrary: cs f d s cs' s')
  case 0
  then show ?case by (simp add: Cons_nth_drop_Suc)
next
  case (Suc n)
  from Suc.prems obtain x t where rd: "read cs (Suc d) = Some x" "read cs d = Some t"
    by (auto split: option.splits)
  then have lx: "Suc d < length cs" "cs ! (Suc d) = Live x"
    by (auto simp: read_Some)
  from Suc.prems rd obtain t' x' s1 where m: "move_assign T t x s = ((True, t', x'), s1)"
    by (auto split: prod.splits bool.splits)
  define cs1 where "cs1 = cs[Suc d := Live x', d := Live t']"
  from Suc.prems rd m have rec: "move_range T cs1 (Suc (Suc d)) n (Suc d) s1 = (None, cs', s')"
    by (simp add: cs1_def)
  have l1: "Suc d + n < length cs1" using Suc.prems(3) by (simp add: cs1_def)
  from Suc.IH[OF rec _ l1] obtain c ys where ih: "length ys = n"
    "cs' = take (Suc d) cs1 @ map Live ys @ c # drop (Suc d + n + 1) cs1"
    "n = 0 \<longrightarrow> c = cs1 ! (Suc d)" "0 < n \<longrightarrow> is_live c"
    "value_preserving T \<longrightarrow> map Live ys = take n (drop (Suc (Suc d)) cs1)"
    by auto
  have a: "take (Suc d) cs1 = take d cs @ [Live t']"
    using lx by (simp add: cs1_def take_Suc_conv_app_nth)
  have b: "drop (Suc d + n + 1) cs1 = drop (d + Suc n + 1) cs"
    by (simp add: cs1_def)
  have c: "is_live c"
    using ih(3,4) lx by (cases "n = 0") (auto simp: cs1_def is_live_def)
  have d: "take n (drop (Suc (Suc d)) cs1) = take n (drop (Suc (Suc d)) cs)"
    by (simp add: cs1_def)
  have e: "take (Suc n) (drop (Suc d) cs) = Live x # take n (drop (Suc (Suc d)) cs)"
    using lx by (simp add: Cons_nth_drop_Suc[symmetric])
  have v: "value_preserving T \<longrightarrow> t' = x"
    using m unfolding value_preserving_def by (metis fst_conv snd_conv)
  show ?case
    by (rule exI[of _ c], rule exI[of _ "t' # ys"]) (use ih a b c d e v in auto)
qed


lemma slot_conv:
  "i < c \<Longrightarrow> (replicate c Raw)[i := Live x] = replicate i Raw @ Live x # replicate (c - i - 1) Raw"
  by (simp add: upd_conv_take_nth_drop min_def)



lemma Emplace_transfer_ok:
  assumes tr: "Emplace_transfer T old sz i nb s = (None, old1, nb1, s1)"
    and old: "old = map Live xs @ replicate k Raw" and sz: "sz = length xs" and i: "i \<le> sz"
    and nb: "nb = (replicate c Raw)[i := Live x]" and c: "sz < c"
  shows "\<exists>ys rs. length ys = sz \<and> length rs = sz \<and>
           nb1 = map Live (take i ys @ x # drop i ys) @ replicate (c - sz - 1) Raw \<and>
           old1 = map Live rs @ replicate k Raw \<and>
           (value_preserving T \<longrightarrow> ys = xs)"
proof -
  have nb': "nb = replicate i Raw @ Live x # replicate (c - i - 1) Raw"
    using nb i c by (simp add: slot_conv)
  have t_old: "take i old = map Live (take i xs)" using old sz i by (simp add: take_map)
  have d_old: "drop i old = map Live (drop i xs) @ replicate k Raw"
    using old sz i by (simp add: drop_map)
  show ?thesis
  proof (cases "is_nothrow_move_constructible T \<or> \<not> is_copy_constructible T")
    case True
    obtain r1 o1 n1 t1 where m1: "uninitialized_move_n T old 0 i nb 0 s = (r1, o1, n1, t1)"
      by (cases "uninitialized_move_n T old 0 i nb 0 s")
    have r1: "r1 = None"
      using tr True m1 by (cases r1) (auto simp: Emplace_transfer_def Emplace_catch_def split: option.splits)
    with tr True m1 have m2:
      "uninitialized_move_n T o1 i (sz - i) n1 (i + 1) t1 = (None, old1, nb1, s1)"
      by (auto simp: Emplace_transfer_def Emplace_catch_def split: option.splits prod.splits)
    from umove_ok[OF m1[unfolded r1]] obtain ys1 rs1 where p1:
      "length ys1 = i" "length rs1 = i" "n1 = map Live ys1 @ drop i nb"
      "o1 = map Live rs1 @ drop i old"
      "value_preserving T \<longrightarrow> take i old = map Live ys1"
      by auto
    from umove_ok[OF m2] obtain ys2 rs2 where p2:
      "length ys2 = sz - i" "length rs2 = sz - i"
      "nb1 = take (i + 1) n1 @ map Live ys2 @ drop (i + 1 + (sz - i)) n1"
      "old1 = take i o1 @ map Live rs2 @ drop (i + (sz - i)) o1"
      "value_preserving T \<longrightarrow> take (sz - i) (drop i o1) = map Live ys2"
      by auto
    have n1: "n1 = map Live ys1 @ Live x # replicate (c - i - 1) Raw"
      using p1(3) nb' by simp
    have a: "nb1 = map Live (ys1 @ x # ys2) @ replicate (c - sz - 1) Raw"
      using p2(3) n1 p1(1) i c by (simp add: Suc_diff_le)
    have b: "old1 = map Live (rs1 @ rs2) @ replicate k Raw"
      using p2(4) p1(2,4) d_old i sz by simp
    have v: "value_preserving T \<longrightarrow> ys1 @ ys2 = xs"
    proof
      assume vp: "value_preserving T"
      with p1(5) t_old have 1: "ys1 = take i xs" by (simp add: map_Live_eq)
      from vp p2(5) p1(2,4) d_old sz i have "map Live ys2 = map Live (drop i xs)" by simp
      then have "ys2 = drop i xs" by (simp add: map_Live_eq)
      with 1 show "ys1 @ ys2 = xs" by simp
    qed
    show ?thesis
      by (rule exI[of _ "ys1 @ ys2"], rule exI[of _ "rs1 @ rs2"])
         (use a b v p1(1,2) p2(1,2) i in auto)
  next
    case False
    obtain r1 n1 t1 where m1: "uninitialized_copy_n T old 0 i nb 0 s = (r1, n1, t1)"
      by (cases "uninitialized_copy_n T old 0 i nb 0 s")
    have r1: "r1 = None"
      using tr False m1 by (cases r1) (auto simp: Emplace_transfer_def Emplace_catch_def split: option.splits)
    obtain r2 n2 t2 where m2:
      "uninitialized_copy_n T old i (sz - i) n1 (i + 1) t1 = (r2, n2, t2)"
      by (cases "uninitialized_copy_n T old i (sz - i) n1 (i + 1) t1")
    have r2: "r2 = None"
      using tr False m1 r1 m2
      by (cases r2) (auto simp: Emplace_transfer_def Emplace_catch_def split: option.splits)
    with tr False m1 r1 m2 have res: "old1 = old" "nb1 = n2" "s1 = t2"
      by (auto simp: Emplace_transfer_def)
    from ucopy_ok[OF m1[unfolded r1]] obtain ys1 where p1:
      "length ys1 = i" "n1 = map Live ys1 @ drop i nb"
      "value_preserving T \<longrightarrow> take i old = map Live ys1"
      by auto
    from ucopy_ok[OF m2[unfolded r2]] obtain ys2 where p2:
      "length ys2 = sz - i"
      "n2 = take (i + 1) n1 @ map Live ys2 @ drop (i + 1 + (sz - i)) n1"
      "value_preserving T \<longrightarrow> take (sz - i) (drop i old) = map Live ys2"
      by auto
    have n1: "n1 = map Live ys1 @ Live x # replicate (c - i - 1) Raw"
      using p1(2) nb' by simp
    have a: "nb1 = map Live (ys1 @ x # ys2) @ replicate (c - sz - 1) Raw"
      using p2(2) n1 p1(1) i c res by (simp add: Suc_diff_le)
    have v: "value_preserving T \<longrightarrow> ys1 @ ys2 = xs"
    proof
      assume vp: "value_preserving T"
      with p1(3) t_old have 1: "ys1 = take i xs" by (simp add: map_Live_eq)
      from vp p2(3) d_old sz i have "map Live ys2 = map Live (drop i xs)" by simp
      then have "ys2 = drop i xs" by (simp add: map_Live_eq)
      with 1 show "ys1 @ ys2 = xs" by simp
    qed
    show ?thesis
      by (rule exI[of _ "ys1 @ ys2"], rule exI[of _ xs])
         (use a v p1(1) p2(1) i res old sz in auto)
  qed
qed



lemma Emplace_realloc_ok:
  assumes h: "holds v w xs" and full: "size_m v = capacity_m (data_m v)"
    and i: "i \<le> length xs"
    and r: "Emplace_realloc T i mk (v, w) = (Inr it, v', w')"
  shows "\<exists>x s0 ys. mk (tstate w) = (Some x, s0) \<and> length ys = length xs \<and>
           (value_preserving T \<longrightarrow> ys = xs) \<and>
           holds v' w' (take i ys @ x # drop i ys) \<and>
           data_m v' = \<lparr>buffer_m = Some (next_addr w),
                         capacity_m = (if length xs = 0 then 1 else length xs * 2)\<rparr> \<and>
           it = (Some (next_addr w), i)"
proof -
  define c where "c = (if length xs = 0 then 1 else length xs * 2)"
  define old where "old = map Live xs @ replicate 0 Raw"
  define nd where "nd = \<lparr>buffer_m = Some (next_addr w), capacity_m = c\<rparr>"
  define w1 where "w1 = w\<lparr>heap := (heap w)(next_addr w \<mapsto> replicate c Raw),
          next_addr := Suc (next_addr w), avail := avail w - c * tsize w\<rparr>"
  have sz: "size_m v = length xs" using h by (simp add: holds_def)
  have cap: "capacity_m (data_m v) = length xs" using sz full by simp
  have c0: "c \<noteq> 0" "length xs < c" by (auto simp: c_def)
  have ad: "addressable v w" by (rule holds_addressable[OF h])
  then have t0: "0 < tsize w" by (simp add: addressable_def)
  have nw: "c * tsize w < 2 ^ 64"
    by (rule addressable_no_wrap[OF ad]) (simp add: c_def cap)
  have "length xs * 2 \<le> c * tsize w" if "length xs \<noteq> 0"
    using that t0 by (cases "tsize w") (simp_all add: c_def)
  with nw have "length xs \<noteq> 0 \<Longrightarrow> length xs * 2 < 2 ^ 64" by fastforce
  then have ceq: "(if size_m v = 0 then 1 else size_t_mul (size_m v) 2) = c"
    by (simp add: c_def sz size_t_mul_fits)
  note r = r[unfolded Emplace_realloc_def prod.case ceq]
  from r obtain m w1' where new: "RawMemory_new c w = Inr (m, w1')"
    by (auto split: sum.splits)
  from RawMemory_new_Inr[OF new c0(1) t0 nw] have m: "m = nd" and w1': "w1' = w1"
    and fit: "c * tsize w \<le> avail w"
    by (simp_all add: nd_def w1_def)
  have fresh: "buffer_m (data_m v) \<noteq> Some (next_addr w)"
    using h by (auto simp: holds_def split: option.splits)
  have b_old: "block (data_m v) w1 = Some old"
    using holds_block[OF h] fresh cap
    by (auto simp: block_def w1_def old_def split: option.splits)
  have b_new: "block nd w1 = Some (replicate c Raw)"
    by (simp add: block_def nd_def w1_def)
  have il: "i < length (replicate c (Raw :: 'a cell))" using i c0 by simp
  have ts: "tstate w1 = tstate w" by (simp add: w1_def)
  obtain xo s0 where mk: "mk (tstate w) = (xo, s0)" by (cases "mk (tstate w)")
  from r new m w1' b_old b_new il ts mk obtain x where x: "xo = Some x"
    by (cases xo) auto
  obtain st old1 nb1 s1 where
    tr: "Emplace_transfer T old (size_m v) i ((replicate c Raw)[i := Live x]) s0 = (st, old1, nb1, s1)"
    by (cases "Emplace_transfer T old (size_m v) i ((replicate c Raw)[i := Live x]) s0")
  have st: "st = None"
    using r new m w1' b_old b_new il ts mk x tr
    by (cases st) auto
  from Emplace_transfer_ok[OF tr[unfolded st] old_def sz i[folded sz] refl c0(2)[folded sz]]
  obtain ys rs where yr: "length ys = length xs" "length rs = length xs"
    "nb1 = map Live (take i ys @ x # drop i ys) @ replicate (c - length xs - 1) Raw"
    "old1 = map Live rs @ replicate 0 Raw" "value_preserving T \<longrightarrow> ys = xs"
    unfolding sz by blast
  have d: "DestroyN old1 0 (size_m v) = Some (replicate (length xs) Raw)"
    using yr(2,4) sz DestroyN_live[of 0 "[]" "length xs" rs "[]"] by simp
  have res: "v' = v\<lparr>data_m := nd, size_m := length xs + 1\<rparr>"
    "w' = Deallocate (buffer_m (data_m v))
            (write_back v nd (replicate (length xs) Raw) nb1 s1 w1)"
    "it = (Some (next_addr w), i)"
    using r sz new m w1' b_old b_new il ts mk x tr st d
    by (auto simp: RawMemory_Swap_def nd_def ptr_add_def GetAddress_def)
  have av': "c * tsize w + avail w' = capacity_m (data_m v) * tsize w + avail w"
  proof (cases "buffer_m (data_m v)")
    case None
    with h have "capacity_m (data_m v) = 0" by (simp add: holds_def)
    with None res(2) fit show ?thesis
      by (simp add: w1_def write_back_def put_block_def Deallocate_def nd_def)
  next
    case (Some a)
    with res(2) fit fresh cap show ?thesis
      by (simp add: w1_def write_back_def put_block_def Deallocate_def nd_def)
  qed
  have ts': "tsize w' = tsize w"
    using res(2)
    by (simp add: w1_def write_back_def put_block_def Deallocate_def nd_def
          split: option.splits)
  have ad': "addressable v' w'"
    using ad av' ts' res(1) by (simp add: addressable_def nd_def)
  have "holds v' w' (take i ys @ x # drop i ys)"
    using res yr(1,3) h fresh c0 i ad'
    by (auto simp: holds_def nd_def w1_def write_back_def put_block_def Deallocate_def
          split: option.splits)
  with yr(1,5) res mk x show ?thesis by (auto simp: nd_def c_def)
qed

subsection \<open>Insertion with a free cell\<close>

lemma Emplace_shift_ok:
  assumes sh: "Emplace_shift T cs i sz s = (Some cs', s')"
    and nt: "nothrow_move_assignable T"
    and i: "i < sz" and l: "sz \<le> length cs" and lv: "is_live (cs ! i)"
  shows "\<exists>c ys. length ys = sz - 1 - i \<and>
           cs' = take i cs @ Live c # map Live ys @ drop sz cs \<and>
           (value_preserving T \<longrightarrow> map Live ys = take (sz - 1 - i) (drop i cs))"
proof -
  obtain r cs2 s2 where mb: "move_backward T cs i (sz - 1 - i) sz s = (r, cs2, s2)"
    by (cases "move_backward T cs i (sz - 1 - i) sz s")
  have r: "r = None"
  proof (cases r)
    case (Some e)
    with move_backward_nothrow[OF mb[unfolded Some] nt] sh mb show ?thesis
      by (simp add: Emplace_shift_def)
  qed simp
  with sh mb have cs2: "cs2 = cs'" by (simp add: Emplace_shift_def)
  have 1: "sz = i + (sz - 1 - i) + 1" using i by simp
  have 2: "i + (sz - 1 - i) < length cs" using i l by simp
  from move_backward_ok[OF mb[unfolded r] 1 2] obtain c ys where p:
    "length ys = sz - 1 - i" "cs2 = take i cs @ c # map Live ys @ drop (i + (sz - 1 - i) + 1) cs"
    "sz - 1 - i = 0 \<longrightarrow> c = cs ! i" "0 < sz - 1 - i \<longrightarrow> is_live c"
    "value_preserving T \<longrightarrow> map Live ys = take (sz - 1 - i) (drop i cs)"
    by (elim exE conjE) (rule that, assumption+)
  have "is_live c" using p(3,4) lv by (cases "sz - 1 - i = 0") auto
  then obtain c0 where "c = Live c0" by (cases c) (auto simp: is_live_def)
  moreover have "i + (sz - 1 - i) + 1 = sz" using i by simp
  ultimately show ?thesis using p(1,2,5) cs2 by auto
qed

lemma Emplace_inplace_ok:
  assumes h: "holds v w xs" and lt: "size_m v < capacity_m (data_m v)"
    and pos: "pos = (buffer_m (data_m v), i)" and i: "i \<le> length xs"
    and nt: "nothrow_move_assignable T \<or> i = length xs"
    and r: "Emplace_inplace T pos mk (v, w) = (Inr it, v', w')"
  shows "\<exists>x s0 zs. mk (tstate w) = (Some x, s0) \<and> length zs = length xs + 1 \<and>
           (value_preserving T \<longrightarrow> zs = take i xs @ x # drop i xs) \<and>
           holds v' w' zs \<and> data_m v' = data_m v \<and> it = pos"
proof -
  define k where "k = capacity_m (data_m v) - length xs"
  define cs where "cs = map Live xs @ replicate k Raw"
  have sz: "size_m v = length xs" using h by (simp add: holds_def)
  have k: "0 < k" "capacity_m (data_m v) = length xs + k" using lt sz by (auto simp: k_def)
  have b: "block (data_m v) w = Some cs" using holds_block[OF h] by (simp add: cs_def k_def)
  obtain a where a: "buffer_m (data_m v) = Some a" "a < next_addr w"
    using h k by (auto simp: holds_def split: option.splits)
  have lcs: "length cs = length xs + k" by (simp add: cs_def)
  obtain xo s0 where mk: "mk (tstate w) = (xo, s0)" by (cases "mk (tstate w)")
  note r = r[unfolded Emplace_inplace_def prod.case b option.case]
  have pe: "pos = cend v \<longleftrightarrow> i = length xs"
    by (auto simp: pos cend_def ptr_add_def GetAddress_def sz)
  have pd: "ptr_diff pos (begin_v v) = i"
    by (simp add: pos ptr_diff_def begin_v_def GetAddress_def)
  show ?thesis
  proof (cases "i = length xs")
    case True
    with pe have pc: "pos = cend v" by simp
    have sl: "size_m v < length cs" using sz lcs k by simp
    note r = r[unfolded pc if_True if_P[OF sl] mk]
    from r obtain x where x: "xo = Some x" by (cases xo) simp_all
    have "cs[length xs := Live x] = map Live (xs @ [x]) @ replicate (k - 1) Raw"
      using k by (cases k) (simp_all add: cs_def list_update_append)
    with r True mk x sz lcs k h a pc show ?thesis
      by (auto simp: holds_def put_block_def intro!: exI[of _ "xs @ [x]"])
  next
    case False
    with pe have pc: "pos \<noteq> cend v" by simp
    note r = r[unfolded if_not_P[OF pc] mk]
    from r obtain x where x: "xo = Some x" by (cases xo) simp_all
    note r = r[unfolded x]
    from False i have il: "i < length xs" by simp
    from False nt have nt: "nothrow_move_assignable T" by simp
    define n where "n = length xs"
    have n0: "0 < n" "i < n" using il by (auto simp: n_def)
    have rl: "read cs (n - 1) = Some (xs ! (n - 1))"
      using n0 by (simp add: read_def cs_def nth_append n_def)
    have g: "0 < n \<and> n < length cs" using n0 lcs k by (simp add: n_def)
    obtain yo l' s1 where mc: "move_ctor T (xs ! (n - 1)) s0 = ((yo, l'), s1)"
      by (cases "move_ctor T (xs ! (n - 1)) s0") auto
    note r = r[unfolded pd sz n_def[symmetric] if_P[OF g] rl, simplified mc prod.case option.case]
    from r obtain y where y: "yo = Some y"
      by (cases yo) simp_all
    note r = r[unfolded y, simplified option.case]
    define cs1 where "cs1 = cs[n - 1 := Live l', n := Live y]"
    have cs1: "cs1 = map Live (xs[n - 1 := l']) @ Live y # replicate (k - 1) Raw"
      using k n0 by (cases k) (simp_all add: cs1_def cs_def list_update_append n_def map_update)
    obtain co s2 where sh: "Emplace_shift T cs1 i n s1 = (co, s2)"
      by (cases "Emplace_shift T cs1 i n s1")
    note r = r[folded cs1_def, unfolded sh, simplified prod.case]
    from r obtain cs3 where co: "co = Some cs3"
      by (cases co) simp_all
    note r = r[unfolded co, simplified option.case]
    have l1: "n \<le> length cs1" by (simp add: cs1 n_def)
    have lv: "is_live (cs1 ! i)" using n0 by (simp add: cs1 nth_append is_live_def n_def)
    from Emplace_shift_ok[OF sh[unfolded co] nt n0(2) l1 lv] obtain c ys where p:
      "length ys = n - 1 - i" "cs3 = take i cs1 @ Live c # map Live ys @ drop n cs1"
      "value_preserving T \<longrightarrow> map Live ys = take (n - 1 - i) (drop i cs1)"
      by (elim exE conjE) (rule that, assumption+)
    have t1: "take i cs1 = map Live (take i xs)"
      using n0 by (simp add: cs1 n_def take_map)
    have d1: "drop n cs1 = Live y # replicate (k - 1) Raw"
      by (simp add: cs1 n_def)
    have cs3: "cs3 = map Live (take i xs) @ Live c # map Live (ys @ [y]) @ replicate (k - 1) Raw"
      using p(2) t1 d1 by simp
    have rd3: "read cs3 i = Some c"
      using n0 by (simp add: cs3 read_def nth_append n_def)
    obtain bb t' temp' s3 where ma: "move_assign T c x s2 = ((bb, t', temp'), s3)"
      by (cases "move_assign T c x s2") auto
    from nt ma have bb: "bb" unfolding nothrow_move_assignable_def by (metis fst_conv)
    have upd: "cs3[i := Live t'] = map Live (take i xs @ t' # ys @ [y]) @ replicate (k - 1) Raw"
      using n0 by (simp add: cs3 list_update_append n_def)
    define zs where "zs = take i xs @ t' # ys @ [y]"
    have lz: "length zs = length xs + 1" using p(1) n0 by (simp add: zs_def n_def)
    from r rd3 ma bb
    have res: "it = pos" "v' = v\<lparr>size_m := n + 1\<rparr>"
      "w' = put_block (data_m v) (cs3[i := Live t']) (w\<lparr>tstate := s3\<rparr>)"
      by simp_all
    have hz: "holds v' w' zs"
      using res upd lz k a h
      by (auto simp: holds_def put_block_def zs_def n_def)
    have vz: "value_preserving T \<longrightarrow> zs = take i xs @ x # drop i xs"
    proof
      assume vp: "value_preserving T"
      from vp ma bb have 1: "t' = x" unfolding value_preserving_def by (metis fst_conv snd_conv)
      from vp mc y have 2: "y = xs ! (n - 1)" unfolding value_preserving_def
        by (metis fst_conv option.distinct(1) option.inject)
      have "take (n - 1 - i) (drop i cs1) = map Live (take (n - 1 - i) (drop i xs))"
        using n0 by (simp add: cs1 n_def take_map drop_map take_update_cancel drop_update_swap)
      with vp p(3) have 3: "ys = take (n - 1 - i) (drop i xs)" by (simp add: map_Live_eq)
      have "take (Suc (n - 1 - i)) (drop i xs)
              = take (n - 1 - i) (drop i xs) @ [drop i xs ! (n - 1 - i)]"
        by (rule take_Suc_conv_app_nth) (use n0 in \<open>simp add: n_def\<close>)
      moreover have "take (Suc (n - 1 - i)) (drop i xs) = drop i xs"
        using n0 by (simp add: n_def)
      moreover have "drop i xs ! (n - 1 - i) = xs ! (n - 1)"
        using n0 by (simp add: n_def)
      ultimately have "drop i xs = take (n - 1 - i) (drop i xs) @ [xs ! (n - 1)]"
        by simp
      with 1 2 3 show "zs = take i xs @ x # drop i xs" by (simp add: zs_def)
    qed
    from mk x lz vz hz res show ?thesis by auto
  qed
qed

subsection \<open>Emplace and Insert\<close>

lemma Emplace_ok:
  assumes h: "holds v w xs" and i: "i \<le> length xs"
    and nt: "nothrow_move_assignable T \<or> size_m v = capacity_m (data_m v) \<or> i = length xs"
    and r: "Emplace T (ptr_add (begin_v v) i) mk (v, w) = (Inr it, v', w')"
  shows "\<exists>x s0 zs. mk (tstate w) = (Some x, s0) \<and> length zs = length xs + 1 \<and>
           (value_preserving T \<longrightarrow> zs = take i xs @ x # drop i xs) \<and>
           holds v' w' zs \<and> it = ptr_add (begin_v v') i \<and>
           Capacity v' = (if Size v = Capacity v then max 1 (2 * Capacity v) else Capacity v)"
proof -
  have sz: "size_m v = length xs" and le: "length xs \<le> capacity_m (data_m v)"
    using h by (simp_all add: holds_def)
  have pos: "ptr_add (begin_v v) i = (buffer_m (data_m v), i)"
    by (simp add: ptr_add_def begin_v_def GetAddress_def)
  have ok: "ptr_le (begin_v v) (ptr_add (begin_v v) i) \<and> ptr_le (ptr_add (begin_v v) i) (end_v v)"
    using i sz by (simp add: ptr_le_def ptr_add_def begin_v_def end_v_def GetAddress_def)
  have pd: "ptr_diff (ptr_add (begin_v v) i) (begin_v v) = i"
    by (simp add: ptr_diff_def ptr_add_def begin_v_def GetAddress_def)
  note r = r[unfolded Emplace_def prod.case if_P[OF ok] pd]
  show ?thesis
  proof (cases "size_m v = Capacity v")
    case True
    then have full: "size_m v = capacity_m (data_m v)" by (simp add: Capacity_def)
    from r True have rr: "Emplace_realloc T i mk (v, w) = (Inr it, v', w')" by simp
    from Emplace_realloc_ok[OF h full i rr] obtain x s0 ys where p:
      "mk (tstate w) = (Some x, s0)" "length ys = length xs"
      "value_preserving T \<longrightarrow> ys = xs" "holds v' w' (take i ys @ x # drop i ys)"
      "data_m v' = \<lparr>buffer_m = Some (next_addr w),
                     capacity_m = (if length xs = 0 then 1 else length xs * 2)\<rparr>"
      "it = (Some (next_addr w), i)"
      by (elim exE conjE) (rule that, assumption+)
    have "capacity_m (data_m v') = (if length xs = 0 then 1 else length xs * 2)"
      using p(5) by simp
    moreover have "capacity_m (data_m v) = length xs" using full sz by simp
    ultimately have "Capacity v' = max 1 (2 * Capacity v)"
      unfolding Capacity_def by (cases xs) (auto simp: max_def)
    with p True show ?thesis
      by (intro exI[of _ x] exI[of _ s0] exI[of _ "take i ys @ x # drop i ys"])
         (auto simp: Size_def ptr_add_def begin_v_def GetAddress_def)
  next
    case False
    with sz le have lt: "size_m v < capacity_m (data_m v)" by (simp add: Capacity_def)
    from nt False sz have nt': "nothrow_move_assignable T \<or> i = length xs"
      by (auto simp: Capacity_def)
    from r False have rr:
      "Emplace_inplace T (ptr_add (begin_v v) i) mk (v, w) = (Inr it, v', w')" by simp
    from Emplace_inplace_ok[OF h lt pos i nt' rr] obtain x s0 zs where p:
      "mk (tstate w) = (Some x, s0)" "length zs = length xs + 1"
      "value_preserving T \<longrightarrow> zs = take i xs @ x # drop i xs"
      "holds v' w' zs" "data_m v' = data_m v" "it = ptr_add (begin_v v) i"
      by (elim exE conjE) (rule that, assumption+)
    with False show ?thesis
      by (intro exI[of _ x] exI[of _ s0] exI[of _ zs])
         (auto simp: Size_def Capacity_def ptr_add_def begin_v_def GetAddress_def)
  qed
qed

text \<open>
  What a call of \<^verbatim>\<open>Emplace\<close> or \<^verbatim>\<open>Insert\<close> that returns leaves behind, when the
  vector is full, the position is \<^verbatim>\<open>end()\<close>, or the move assignment of the element type
  does not throw.
\<close>

lemma Emplace_Insert_result:
  assumes "holds v w xs" and "i \<le> length xs" and "value_preserving T"
    and "nothrow_move_assignable T \<or> Size v = Capacity v \<or> i = length xs"
  shows "(Emplace T (ptr_add (begin_v v) i) mk (v, w) = (Inr it, v', w') \<longrightarrow>
            (\<exists>x s0. mk (tstate w) = (Some x, s0) \<and> holds v' w' (take i xs @ x # drop i xs)) \<and>
            Size v' = Size v + 1 \<and> it = ptr_add (begin_v v') i) \<and>
         (Insert T (ptr_add (begin_v v) i) a (v, w) = (Inr it, v', w') \<longrightarrow>
            holds v' w' (take i xs @ a # drop i xs) \<and>
            Size v' = Size v + 1 \<and> it = ptr_add (begin_v v') i) \<and>
         (Insert_move T (ptr_add (begin_v v) i) a (v, w) = (Inr it, v', w') \<longrightarrow>
            holds v' w' (take i xs @ a # drop i xs) \<and>
            Size v' = Size v + 1 \<and> it = ptr_add (begin_v v') i)"
proof -
  have nt: "nothrow_move_assignable T \<or> size_m v = capacity_m (data_m v) \<or> i = length xs"
    using assms(4) by (simp add: Size_def Capacity_def)
  have gen: "\<exists>x s0. mk (tstate w) = (Some x, s0) \<and> holds v' w' (take i xs @ x # drop i xs) \<and>
            Size v' = Size v + 1 \<and> it = ptr_add (begin_v v') i"
    if r: "Emplace T (ptr_add (begin_v v) i) mk (v, w) = (Inr it, v', w')" for mk
  proof -
    from Emplace_ok[OF assms(1,2) nt r] obtain x s0 zs where p:
      "mk (tstate w) = (Some x, s0)" "length zs = length xs + 1"
      "value_preserving T \<longrightarrow> zs = take i xs @ x # drop i xs"
      "holds v' w' zs" "it = ptr_add (begin_v v') i"
      by (elim exE conjE) (rule that, assumption+)
    from p(4) assms(1) p(2) have "Size v' = Size v + 1" by (simp add: holds_def Size_def)
    with p assms(3) show ?thesis by auto
  qed
  have cp: "x = a" if "copy_ctor T a s = (Some x, s0)" for x s s0
    using that assms(3) unfolding value_preserving_def
    by (metis fst_conv option.distinct(1) option.inject)
  have mv: "x = a" if "move_from T a s = (Some x, s0)" for x s s0
  proof -
    from that obtain r where "move_ctor T a s = ((Some x, r), s0)"
      by (auto simp: move_from_def split: prod.splits)
    with assms(3) show ?thesis unfolding value_preserving_def
      by (metis fst_conv option.distinct(1) option.inject)
  qed
  show ?thesis
  proof (intro conjI impI)
    assume r: "Emplace T (ptr_add (begin_v v) i) mk (v, w) = (Inr it, v', w')"
    from gen[OF r] show "\<exists>x s0. mk (tstate w) = (Some x, s0) \<and> holds v' w' (take i xs @ x # drop i xs)"
      "Size v' = Size v + 1" "it = ptr_add (begin_v v') i" by auto
  next
    assume r: "Insert T (ptr_add (begin_v v) i) a (v, w) = (Inr it, v', w')"
    from gen[OF r[unfolded Insert_def]] cp
    show "holds v' w' (take i xs @ a # drop i xs)"
      "Size v' = Size v + 1" "it = ptr_add (begin_v v') i" by auto
  next
    assume r: "Insert_move T (ptr_add (begin_v v) i) a (v, w) = (Inr it, v', w')"
    from gen[OF r[unfolded Insert_move_def]] mv
    show "holds v' w' (take i xs @ a # drop i xs)"
      "Size v' = Size v + 1" "it = ptr_add (begin_v v') i" by auto
  qed
qed


lemma nothrow_move_assignable_probe: "nothrow_move_assignable (T_probe True b d r)"
  by (simp add: nothrow_move_assignable_def T_probe_def)


subsection \<open>Capacity growth\<close>

lemma pow2_from_spec:
  "p = 2 ^ a \<Longrightarrow> a = 0 \<or> 2 ^ (a - 1) < n \<Longrightarrow>
   \<exists>j. pow2_from p n = 2 ^ j \<and> n \<le> 2 ^ j \<and> (j = 0 \<or> 2 ^ (j - 1) < n)"
proof (induction p n arbitrary: a rule: pow2_from.induct)
  case (1 p n)
  show ?case
  proof (cases "n \<le> p")
    case True
    with "1.prems" show ?thesis by (subst pow2_from.simps) auto
  next
    case False
    have "\<exists>j. pow2_from (2 * p) n = 2 ^ j \<and> n \<le> 2 ^ j \<and> (j = 0 \<or> 2 ^ (j - 1) < n)"
      by (rule "1.IH"[of "Suc a"]) (use False "1.prems" in auto)
    with False "1.prems" show ?thesis by (subst pow2_from.simps) auto
  qed
qed

lemma first_pow2_char:
  "\<exists>j. first_pow2 n = 2 ^ j \<and> n \<le> 2 ^ j \<and> (j = 0 \<or> 2 ^ (j - 1) < n)"
  unfolding first_pow2_def by (rule pow2_from_spec[of 1 0]) auto

lemma first_pow2_unique:
  assumes "n \<le> 2 ^ j" and "j = 0 \<or> 2 ^ (j - 1) < n"
  shows "first_pow2 n = 2 ^ j"
proof -
  from first_pow2_char[of n] obtain a where a:
    "first_pow2 n = 2 ^ a" "n \<le> 2 ^ a" "a = 0 \<or> 2 ^ (a - 1) < n" by blast
  have "a = j"
  proof (rule ccontr)
    assume "a \<noteq> j"
    then consider "a < j" | "j < a" by linarith
    then show False
    proof cases
      case 1
      then have "a \<le> j - 1" and "j \<noteq> 0" by simp_all
      then have "(2::nat) ^ a \<le> 2 ^ (j - 1)" and "(2::nat) ^ (j - 1) < n"
        using assms(2) by (simp_all add: power_increasing)
      with a(2) show False by linarith
    next
      case 2
      then have "j \<le> a - 1" and "a \<noteq> 0" by simp_all
      then have "(2::nat) ^ j \<le> 2 ^ (a - 1)" and "(2::nat) ^ (a - 1) < n"
        using a(3) by (simp_all add: power_increasing)
      with assms(1) show False by linarith
    qed
  qed
  with a(1) show ?thesis by simp
qed

lemma first_pow2_Suc:
  assumes "0 < k" 
  shows "first_pow2 (Suc k) = (if k = first_pow2 k then 2 * first_pow2 k else first_pow2 k)"
proof -
  from first_pow2_char[of k] obtain j where j:
    "first_pow2 k = 2 ^ j" "k \<le> 2 ^ j" "j = 0 \<or> 2 ^ (j - 1) < k" by blast
  show ?thesis
  proof (cases "k = first_pow2 k")
    case True
    have "first_pow2 (Suc k) = 2 ^ Suc j"
      by (rule first_pow2_unique) (use True j in auto)
    with True j show ?thesis by simp
  next
    case False
    with j have lt: "k < 2 ^ j" by simp
    have j0: "j \<noteq> 0" using lt assms by (cases j) auto
    have "first_pow2 (Suc k) = 2 ^ j"
      by (rule first_pow2_unique) (use lt j j0 in auto)
    with False j show ?thesis by simp
  qed
qed

lemma first_pow2_1: "first_pow2 (Suc 0) = 1"
  by (simp add: first_pow2_def)

lemma PushBack_ok:
  assumes h: "holds v w ys" and r: "PushBack T a (v, w) = (None, v', w')"
  shows "\<exists>zs. holds v' w' zs \<and> length zs = length ys + 1 \<and>
           (value_preserving T \<longrightarrow> zs = ys @ [a]) \<and>
           Capacity v' = (if Size v = Capacity v then max 1 (2 * Capacity v) else Capacity v)"
proof -
  have e: "end_v v = ptr_add (begin_v v) (length ys)"
    using h by (simp add: end_v_def begin_v_def holds_def)
  from r obtain it where em:
    "Emplace T (ptr_add (begin_v v) (length ys)) (copy_ctor T a) (v, w) = (Inr it, v', w')"
    by (auto simp: PushBack_def EmplaceBack_def e split: sum.splits prod.splits)
  from Emplace_ok[OF h le_refl _ em] obtain x s0 zs where p:
    "copy_ctor T a (tstate w) = (Some x, s0)" "length zs = length ys + 1"
    "value_preserving T \<longrightarrow> zs = take (length ys) ys @ x # drop (length ys) ys"
    "holds v' w' zs"
    "Capacity v' = (if Size v = Capacity v then max 1 (2 * Capacity v) else Capacity v)"
    by auto
  have "value_preserving T \<longrightarrow> x = a"
    using p(1) unfolding value_preserving_def
    by (metis fst_conv option.distinct(1) option.inject)
  with p show ?thesis by auto
qed

lemma PushBack_all_caps:
  assumes "holds v w ys"
    and "Capacity v = (if ys = [] then 0 else first_pow2 (length ys))"
    and "PushBack_all T xs (v, w) = (None, caps, v', w')"
  shows "caps = map first_pow2 [length ys + 1 ..< length ys + length xs + 1] \<and>
         Capacity v' = (if ys = [] \<and> xs = [] then 0 else first_pow2 (length ys + length xs)) \<and>
         (\<exists>zs. holds v' w' zs \<and> length zs = length ys + length xs \<and>
               (value_preserving T \<longrightarrow> zs = ys @ xs))"
  using assms
proof (induction xs arbitrary: v w ys caps)
  case Nil
  then show ?case by auto
next
  case (Cons a xs)
  from Cons.prems(3) obtain v1 w1 caps1 where
    pb: "PushBack T a (v, w) = (None, v1, w1)" and
    rest: "PushBack_all T xs (v1, w1) = (None, caps1, v', w')" and
    caps: "caps = Capacity v1 # caps1"
    by (auto split: option.splits prod.splits)
  from PushBack_ok[OF Cons.prems(1) pb] obtain zs where z:
    "holds v1 w1 zs" "length zs = length ys + 1" "value_preserving T \<longrightarrow> zs = ys @ [a]"
    "Capacity v1 = (if Size v = Capacity v then max 1 (2 * Capacity v) else Capacity v)"
    by blast
  have sz: "Size v = length ys" using Cons.prems(1) by (simp add: holds_def Size_def)
  have c1: "Capacity v1 = first_pow2 (length ys + 1)"
  proof (cases "ys = []")
    case True
    with z(4) sz Cons.prems(2) show ?thesis by (simp add: first_pow2_1)
  next
    case False
    define k where "k = length ys"
    have pos: "0 < k" using False by (simp add: k_def)
    have cv: "Capacity v = first_pow2 k" "Size v = k"
      using Cons.prems(2) False sz by (simp_all add: k_def)
    have "Capacity v1 = first_pow2 (Suc k)"
      using first_pow2_Suc[OF pos] z(4) pos unfolding cv by (auto simp: max_def)
    then show ?thesis by (simp add: k_def)
  qed
  have zne: "zs \<noteq> []" using z(2) by auto
  have c1': "Capacity v1 = (if zs = [] then 0 else first_pow2 (length zs))"
    using c1 zne z(2) by simp
  from Cons.IH[OF z(1) c1' rest] obtain zs' where ih:
    "caps1 = map first_pow2 [length zs + 1 ..< length zs + length xs + 1]"
    "Capacity v' = first_pow2 (length zs + length xs)"
    "holds v' w' zs'" "length zs' = length zs + length xs"
    "value_preserving T \<longrightarrow> zs' = zs @ xs"
    using zne by auto
  have "[length ys + 1 ..< length ys + length (a # xs) + 1]
        = (length ys + 1) # [length zs + 1 ..< length zs + length xs + 1]"
    using z(2) by (simp add: upt_rec)
  with caps c1 ih z(2,3) show ?case by auto
qed

lemma holds_vec2: "holds vec2 (world2 s) [1, 2]"
  by (simp add: holds_def addressable_def vec2_def world2_def)

lemma holds_default: "holds Vector_default (world0 s) []"
  by (simp add: holds_def addressable_def Vector_default_def RawMemory_default_def world0_def)

lemma Emplace_grows:
  assumes h: "holds v w xs" and full: "Size v = Capacity v"
    and r: "Emplace T pos mk (v, w) = (Inr it, v', w')"
  shows "Capacity v' = max 1 (2 * Capacity v)"
proof -
  have ok: "ptr_le (begin_v v) pos \<and> ptr_le pos (end_v v)"
    using r by (auto simp: Emplace_def split: if_splits)
  obtain b i where bi: "pos = (b, i)" by (cases pos)
  have sz: "size_m v = length xs" using h by (simp add: holds_def)
  from ok have "fst (begin_v v) = fst pos" "snd pos \<le> snd (end_v v)"
    unfolding ptr_le_def by blast+
  then have pos: "pos = ptr_add (begin_v v) i" and i: "i \<le> length xs"
    unfolding bi
    by (simp_all add: ptr_add_def begin_v_def end_v_def GetAddress_def sz)
  have nt: "nothrow_move_assignable T \<or> size_m v = capacity_m (data_m v) \<or> i = length xs"
    using full by (simp add: Size_def Capacity_def)
  from Emplace_ok[OF h i nt r[unfolded pos]] full show ?thesis by auto
qed

text \<open>
  C3. Every insertion that finds \<open>size = capacity\<close> and returns leaves the capacity
  \<open>max 1 (2 * capacity)\<close>: \<^verbatim>\<open>Emplace\<close> with any constructor arguments and any position,
  both overloads of \<^verbatim>\<open>Insert\<close>, \<^verbatim>\<open>EmplaceBack\<close>, and both overloads of
  \<^verbatim>\<open>PushBack\<close>. After \<open>N\<close> calls of \<^verbatim>\<open>PushBack\<close> on an empty vector that all return, the
  capacity after the \<open>k\<close>-th call was the first power of two that is at least \<open>k\<close>, for every
  \<open>k\<close> from 1 to \<open>N\<close>: the capacities run through 1, 2, 4, 8, ... and end at the first power
  of two that is at least \<open>N\<close>. The last part says that \<open>first_pow2 n\<close> is what its name says.
\<close>

theorem growth_policy:
  "(holds v w xs \<and> Size v = Capacity v \<longrightarrow>
      (Emplace T pos mk (v, w) = (Inr it, v', w') \<longrightarrow> Capacity v' = max 1 (2 * Capacity v)) \<and>
      (Insert T pos a (v, w) = (Inr it, v', w') \<longrightarrow> Capacity v' = max 1 (2 * Capacity v)) \<and>
      (Insert_move T pos a (v, w) = (Inr it, v', w') \<longrightarrow> Capacity v' = max 1 (2 * Capacity v)) \<and>
      (EmplaceBack T mk (v, w) = (Inr it, v', w') \<longrightarrow> Capacity v' = max 1 (2 * Capacity v)) \<and>
      (PushBack T a (v, w) = (None, v', w') \<longrightarrow> Capacity v' = max 1 (2 * Capacity v)) \<and>
      (PushBack_move T a (v, w) = (None, v', w') \<longrightarrow> Capacity v' = max 1 (2 * Capacity v))) \<and>
   (holds Vector_default w [] \<and> PushBack_all T bs (Vector_default, w) = (None, caps, v', w')
      \<longrightarrow> caps = map first_pow2 [1 ..< length bs + 1] \<and> Size v' = length bs \<and>
          (bs \<noteq> [] \<longrightarrow> Capacity v' = first_pow2 (length bs))) \<and>
   (\<exists>j. first_pow2 n = 2 ^ j \<and> n \<le> 2 ^ j \<and> (j = 0 \<or> 2 ^ (j - 1) < n))"
proof (intro conjI impI)
  assume a: "holds v w xs \<and> Size v = Capacity v"
  then have h: "holds v w xs" and f: "Size v = Capacity v" by simp_all
  note g = Emplace_grows[OF h f]
  {
    assume "Emplace T pos mk (v, w) = (Inr it, v', w')"
    then show "Capacity v' = max 1 (2 * Capacity v)" by (rule g)
  }
  {
    assume "Insert T pos a (v, w) = (Inr it, v', w')"
    then show "Capacity v' = max 1 (2 * Capacity v)" unfolding Insert_def by (rule g)
  }
  {
    assume "Insert_move T pos a (v, w) = (Inr it, v', w')"
    then show "Capacity v' = max 1 (2 * Capacity v)" unfolding Insert_move_def by (rule g)
  }
  {
    assume "EmplaceBack T mk (v, w) = (Inr it, v', w')"
    then show "Capacity v' = max 1 (2 * Capacity v)"
      unfolding EmplaceBack_def prod.case by (rule g)
  }
  {
    assume "PushBack T a (v, w) = (None, v', w')"
    then obtain r where "Emplace T (end_v v) (copy_ctor T a) (v, w) = (Inr r, v', w')"
      by (auto simp: PushBack_def EmplaceBack_def split: sum.splits prod.splits)
    then show "Capacity v' = max 1 (2 * Capacity v)" by (rule g)
  }
  {
    assume "PushBack_move T a (v, w) = (None, v', w')"
    then obtain r where "Emplace T (end_v v) (move_from T a) (v, w) = (Inr r, v', w')"
      by (auto simp: PushBack_move_def EmplaceBack_def split: sum.splits prod.splits)
    then show "Capacity v' = max 1 (2 * Capacity v)" by (rule g)
  }
next
  assume a: "holds Vector_default w [] \<and>
    PushBack_all T bs (Vector_default, w) = (None, caps, v', w')"
  then have h0: "holds Vector_default w ([] :: 'a list)"
    and r: "PushBack_all T bs (Vector_default, w) = (None, caps, v', w')" by simp_all
  have c0: "Capacity Vector_default = (if ([]::'a list) = [] then 0 else first_pow2 (length ([]::'a list)))"
    by (simp add: Capacity_def Vector_default_def RawMemory_default_def)
  from PushBack_all_caps[OF h0 c0 r]
  show "caps = map first_pow2 [1 ..< length bs + 1]" "Size v' = length bs"
    by (auto simp: holds_def Size_def)
  assume "bs \<noteq> []"
  with PushBack_all_caps[OF h0 c0 r]
  show "Capacity v' = first_pow2 (length bs)" by simp
next
  show "\<exists>j. first_pow2 n = 2 ^ j \<and> n \<le> 2 ^ j \<and> (j = 0 \<or> 2 ^ (j - 1) < n)"
    by (rule first_pow2_char)
qed

theorem growth_policy_witness:
  "holds vec2 (world2 []) [1, 2] \<and> Size vec2 = Capacity vec2 \<and> max 1 (2 * Capacity vec2) = 4 \<and>
   fst (Emplace (T_plain 0) (ptr_add (begin_v vec2) 1) (\<lambda>s. (Some 9, s)) (vec2, world2 []))
     = Inr (Some 3, 1) \<and>
   Capacity (fst (snd (Emplace (T_plain 0) (ptr_add (begin_v vec2) 1) (\<lambda>s. (Some 9, s))
     (vec2, world2 [])))) = 4 \<and>
   fst (Insert (T_plain 0) (begin_v vec2) 9 (vec2, world2 [])) = Inr (Some 3, 0) \<and>
   Capacity (fst (snd (Insert (T_plain 0) (begin_v vec2) 9 (vec2, world2 [])))) = 4 \<and>
   fst (Insert_move (T_plain 0) (end_v vec2) 9 (vec2, world2 [])) = Inr (Some 3, 2) \<and>
   Capacity (fst (snd (Insert_move (T_plain 0) (end_v vec2) 9 (vec2, world2 [])))) = 4 \<and>
   fst (EmplaceBack (T_plain 0) (\<lambda>s. (Some 9, s)) (vec2, world2 [])) = Inr (Some 3, 2) \<and>
   Capacity (fst (snd (EmplaceBack (T_plain 0) (\<lambda>s. (Some 9, s)) (vec2, world2 [])))) = 4 \<and>
   fst (PushBack (T_plain 0) 9 (vec2, world2 [])) = None \<and>
   Capacity (fst (snd (PushBack (T_plain 0) 9 (vec2, world2 [])))) = 4 \<and>
   fst (PushBack_move (T_plain 0) 9 (vec2, world2 [])) = None \<and>
   Capacity (fst (snd (PushBack_move (T_plain 0) 9 (vec2, world2 [])))) = 4 \<and>
   holds Vector_default (world0 []) ([] :: nat list) \<and>
   fst (PushBack_all (T_probe False True (0::nat) id) [1, 2, 3, 4, 5] (Vector_default, world0 []))
     = None \<and>
   fst (snd (PushBack_all (T_probe False True (0::nat) id) [1, 2, 3, 4, 5] (Vector_default, world0 [])))
     = [1, 2, 4, 4, 8] \<and>
   Capacity (fst (snd (snd (PushBack_all (T_probe False True (0::nat) id) [1, 2, 3, 4, 5]
     (Vector_default, world0 []))))) = 8 \<and>
   map first_pow2 [1 ..< 6] = [1, 2, 4, 4, 8]"
proof -
  let ?P = "T_plain (0::nat) :: (nat, bool list) elem_type"
  let ?T = "T_probe False True (0::nat) id"
  let ?mk = "\<lambda>s :: bool list. (Some (9::nat), s)"
  let ?E = "Emplace ?P (ptr_add (begin_v vec2) 1) ?mk (vec2, world2 [])"
  let ?I = "Insert ?P (begin_v vec2) 9 (vec2, world2 [])"
  let ?M = "Insert_move ?P (end_v vec2) 9 (vec2, world2 [])"
  let ?B = "EmplaceBack ?P ?mk (vec2, world2 [])"
  let ?C = "PushBack ?P 9 (vec2, world2 [])"
  let ?D = "PushBack_move ?P 9 (vec2, world2 [])"
  let ?A = "PushBack_all ?T [1, 2, 3, 4, 5] (Vector_default, world0 [])"
  have h: "holds vec2 (world2 []) [1, 2]" by (rule holds_vec2)
  have f: "Size vec2 = Capacity vec2" by (simp add: Size_def Capacity_def vec2_def)
  have c: "max 1 (2 * Capacity vec2) = 4" by (simp add: Capacity_def vec2_def)
  have e: "fst ?E = Inr (Some 3, 1)" by code_simp
  then have e': "?E = (Inr (Some 3, 1), fst (snd ?E), snd (snd ?E))" by (metis prod.collapse)
  have i: "fst ?I = Inr (Some 3, 0)" by code_simp
  then have i': "?I = (Inr (Some 3, 0), fst (snd ?I), snd (snd ?I))" by (metis prod.collapse)
  have m: "fst ?M = Inr (Some 3, 2)" by code_simp
  then have m': "?M = (Inr (Some 3, 2), fst (snd ?M), snd (snd ?M))" by (metis prod.collapse)
  have b: "fst ?B = Inr (Some 3, 2)" by code_simp
  then have b': "?B = (Inr (Some 3, 2), fst (snd ?B), snd (snd ?B))" by (metis prod.collapse)
  have p: "fst ?C = None" by code_simp
  then have p': "?C = (None, fst (snd ?C), snd (snd ?C))" by (metis prod.collapse)
  have d: "fst ?D = None" by code_simp
  then have d': "?D = (None, fst (snd ?D), snd (snd ?D))" by (metis prod.collapse)
  have h0: "holds Vector_default (world0 []) ([] :: nat list)" by (rule holds_default)
  have a: "fst ?A = None" by code_simp
  then have a': "?A = (None, fst (snd ?A), fst (snd (snd ?A)), snd (snd (snd ?A)))"
    by (metis prod.collapse)
  have fp: "map first_pow2 [1 ..< 6] = [1, 2, 4, 4, 8]"
    by (simp add: first_pow2_def upt_rec)
  have fp5: "first_pow2 (length [1, 2, 3, 4, 5 :: nat]) = 8"
    by (simp add: first_pow2_def)
  have l: "length [1, 2, 3, 4, 5 :: nat] + 1 = 6" by simp
  have ne: "[1, 2, 3, 4, 5 :: nat] \<noteq> []" by simp
  from growth_policy[where v = vec2 and w = "world2 []" and xs = "[1, 2]" and T = ?P
      and pos = "ptr_add (begin_v vec2) 1" and mk = ?mk and it = "(Some 3, 1)"
      and v' = "fst (snd ?E)" and w' = "snd (snd ?E)"] h f e'
  have "Capacity (fst (snd ?E)) = max 1 (2 * Capacity vec2)" by blast
  then have 1: "Capacity (fst (snd ?E)) = 4" unfolding c .
  from growth_policy[where v = vec2 and w = "world2 []" and xs = "[1, 2]" and T = ?P
      and pos = "begin_v vec2" and a = 9 and it = "(Some 3, 0)"
      and v' = "fst (snd ?I)" and w' = "snd (snd ?I)"] h f i'
  have "Capacity (fst (snd ?I)) = max 1 (2 * Capacity vec2)" by blast
  then have 2: "Capacity (fst (snd ?I)) = 4" unfolding c .
  from growth_policy[where v = vec2 and w = "world2 []" and xs = "[1, 2]" and T = ?P
      and pos = "end_v vec2" and a = 9 and it = "(Some 3, 2)"
      and v' = "fst (snd ?M)" and w' = "snd (snd ?M)"] h f m'
  have "Capacity (fst (snd ?M)) = max 1 (2 * Capacity vec2)" by blast
  then have 3: "Capacity (fst (snd ?M)) = 4" unfolding c .
  from growth_policy[where v = vec2 and w = "world2 []" and xs = "[1, 2]" and T = ?P
      and mk = ?mk and it = "(Some 3, 2)"
      and v' = "fst (snd ?B)" and w' = "snd (snd ?B)"] h f b'
  have "Capacity (fst (snd ?B)) = max 1 (2 * Capacity vec2)" by blast
  then have 4: "Capacity (fst (snd ?B)) = 4" unfolding c .
  from growth_policy[where v = vec2 and w = "world2 []" and xs = "[1, 2]" and T = ?P
      and a = 9 and v' = "fst (snd ?C)" and w' = "snd (snd ?C)"] h f p'
  have "Capacity (fst (snd ?C)) = max 1 (2 * Capacity vec2)" by blast
  then have 5: "Capacity (fst (snd ?C)) = 4" unfolding c .
  from growth_policy[where v = vec2 and w = "world2 []" and xs = "[1, 2]" and T = ?P
      and a = 9 and v' = "fst (snd ?D)" and w' = "snd (snd ?D)"] h f d'
  have "Capacity (fst (snd ?D)) = max 1 (2 * Capacity vec2)" by blast
  then have 6: "Capacity (fst (snd ?D)) = 4" unfolding c .
  from growth_policy[where T = ?T and bs = "[1, 2, 3, 4, 5]" and w = "world0 []"
      and caps = "fst (snd ?A)" and v' = "fst (snd (snd ?A))" and w' = "snd (snd (snd ?A))"]
    h0 a' ne
  have 7: "fst (snd ?A) = map first_pow2 [1 ..< length [1, 2, 3, 4, 5 :: nat] + 1] \<and>
           Capacity (fst (snd (snd ?A))) = first_pow2 (length [1, 2, 3, 4, 5 :: nat])"
    by blast
  have 8: "fst (snd ?A) = [1, 2, 4, 4, 8]" using 7 unfolding l fp by simp
  have 9: "Capacity (fst (snd (snd ?A))) = 8" using 7 unfolding fp5 by simp
  from h f c e 1 i 2 m 3 b 4 p 5 d 6 h0 a 8 9 fp show ?thesis by blast
qed

subsection \<open>Exceptions during a reallocation\<close>


lemma filter_live_replicate [simp]: "filter is_live (replicate n Raw) = []"
  by (induction n) (simp_all add: is_live_def)



















text \<open>
  The moving branch of the reallocating \<^verbatim>\<open>Emplace\<close> has no handler of its own around the
  second \<^verbatim>\<open>std::uninitialized_move_n\<close>, as the copying branch has: when the move of the
  suffix throws, the prefix already moved into the new block is not destroyed before the block
  is released. \<^verbatim>\<open>Insert(begin() + 1, T&&)\<close> into the full vector \<open>[1, 2]\<close>, where the move
  of the element 2 throws, releases the new block with one object alive in it.
\<close>

lemma Emplace_moving_branch_leaks:
  "(case Insert_move T_move_only (ptr_add (begin_v vec2) 1) 99
           (vec2, world2 [False, False, True]) of
      (r, v', w') \<Rightarrow>
        r = Inl Thrown \<and> v' = vec2 \<and> block (data_m v') w' = Some [Live 0, Live 2] \<and>
        heap w' 3 = None \<and> leaked w' = 1)"
  by code_simp

subsection \<open>The representation invariant\<close>

lemma all_live_conv:
  "list_all is_live cs \<Longrightarrow> \<exists>xs. cs = map Live xs"
proof (induction cs)
  case Nil
  then show ?case by simp
next
  case (Cons c cs)
  then obtain xs where "cs = map Live xs" by auto
  moreover from Cons.prems obtain x where "c = Live x"
    by (cases c) (auto simp: is_live_def)
  ultimately have "c # cs = map Live (x # xs)" by simp
  then show ?case by (rule exI)
qed

lemma all_raw_conv: "list_all (\<lambda>c. c = Raw) cs \<Longrightarrow> cs = replicate (length cs) Raw"
  by (induction cs) auto

lemma vinv_holds: "vinv v w \<Longrightarrow> addressable v w \<Longrightarrow> \<exists>xs. holds v w xs"
proof -
  assume v: "vinv v w" and ad: "addressable v w"
  show "\<exists>xs. holds v w xs"
  proof (cases "buffer_m (data_m v)")
    case None
    with v ad have "holds v w []" by (auto simp: vinv_def holds_def)
    then show ?thesis ..
  next
    case (Some a)
    with v obtain cs where cs: "heap w a = Some cs" "length cs = capacity_m (data_m v)"
      "list_all is_live (take (size_m v) cs)" "list_all (\<lambda>c. c = Raw) (drop (size_m v) cs)"
      and le: "size_m v \<le> capacity_m (data_m v)" "0 < capacity_m (data_m v)" "a < next_addr w"
      by (auto simp: vinv_def split: option.splits)
    from all_live_conv[OF cs(3)] obtain xs where xs: "take (size_m v) cs = map Live xs" by blast
    from all_raw_conv[OF cs(4)] have d: "drop (size_m v) cs = replicate (length cs - size_m v) Raw"
      by simp
    have l: "length xs = size_m v"
      using xs cs(2) le(1) by (metis length_map length_take min.absorb2)
    have "cs = take (size_m v) cs @ drop (size_m v) cs" by simp
    with xs d have "cs = map Live xs @ replicate (length cs - size_m v) Raw" by simp
    with Some cs(1,2) le l ad have "holds v w xs" by (simp add: holds_def)
    then show ?thesis ..
  qed
qed

text \<open>
  C4. Three calls of \<^verbatim>\<open>PushBack\<close> on an empty vector give size 3 and capacity 4. In the
  following \<^verbatim>\<open>Insert(begin() + 1, 99)\<close> the first move assignment of
  \<^verbatim>\<open>std::move_backward\<close> throws (the ninth operation of the element type). The handler
  destroys the object in \<^verbatim>\<open>end()\<close> and does not rethrow: \<^verbatim>\<open>Insert\<close> returns an
  iterator, the size is 4, cell 3 is raw and the element 2 is gone.
\<close>

theorem Emplace_swallows_exception:
  "(case PushBack_all (T_probe False True (0::nat) id) [1, 2, 3]
           (Vector_default, world0 (replicate 8 False @ [True])) of
      (st, caps, v, w) \<Rightarrow>
        st = None \<and> holds v w [1, 2, 3] \<and> Size v = 3 \<and> Capacity v = 4 \<and>
        (case Insert (T_probe False True 0 id) (ptr_add (begin_v v) 1) 99 (v, w) of
           (r, v', w') \<Rightarrow>
             r = Inr (ptr_add (begin_v v) 1) \<and> Size v' = 4 \<and>
             block (data_m v') w' = Some [Live 1, Live 99, Live 3, Raw] \<and>
             leaked w' = 0))"
  by code_simp

text \<open>
  C6. The same call breaks the representation invariant, which held before it: the size
  counts a cell that holds no object, and a following \<^verbatim>\<open>PopBack\<close> destroys that cell a
  second time. When the assignment of \<^verbatim>\<open>temp\<close> throws instead (the tenth operation), the
  exception leaves the vector with size 3 and an object alive in cell 3.
\<close>

theorem invariant_broken_by_Emplace:
  "(case PushBack_all (T_probe False True (0::nat) id) [1, 2, 3]
           (Vector_default, world0 (replicate 8 False @ [True])) of
      (st, caps, v, w) \<Rightarrow>
        st = None \<and> vinv v w \<and>
        (case Insert (T_probe False True 0 id) (ptr_add (begin_v v) 1) 99 (v, w) of
           (r, v', w') \<Rightarrow>
             r = Inr (ptr_add (begin_v v) 1) \<and> \<not> vinv v' w' \<and>
             size_m v' = 4 \<and> read (the (block (data_m v') w')) 3 = None \<and>
             fst (PopBack (v', w')) = Some UndefinedBehaviour)) \<and>
   (case PushBack_all (T_probe False True (0::nat) id) [1, 2, 3]
           (Vector_default, world0 (replicate 9 False @ [True])) of
      (st, caps, v, w) \<Rightarrow>
        st = None \<and> vinv v w \<and>
        (case Insert (T_probe False True 0 id) (ptr_add (begin_v v) 1) 99 (v, w) of
           (r, v', w') \<Rightarrow>
             r = Inl Thrown \<and> \<not> vinv v' w' \<and>
             size_m v' = 3 \<and> block (data_m v') w' = Some [Live 1, Live 2, Live 2, Live 3]))"
  by code_simp

subsection \<open>Erase\<close>

lemma move_range_no_ub:
  "move_range T cs f n d s = (Some e, cs', s') \<Longrightarrow> f = Suc d \<Longrightarrow>
   (\<forall>j. d \<le> j \<and> j \<le> d + n \<longrightarrow> j < length cs \<and> is_live (cs ! j)) \<Longrightarrow> e = Thrown"
proof (induction n arbitrary: cs f d s cs' s')
  case 0
  then show ?case by simp
next
  case (Suc n)
  from Suc.prems(3) have "Suc d < length cs" "is_live (cs ! Suc d)" "d < length cs" "is_live (cs ! d)"
    by auto
  then obtain x t where rd: "read cs (Suc d) = Some x" "read cs d = Some t"
    by (auto simp: read_def is_live_def split: cell.splits)
  obtain b t' x' s1 where m: "move_assign T t x s = ((b, t', x'), s1)"
    by (cases "move_assign T t x s") auto
  show ?case
  proof (cases b)
    case False
    with Suc.prems(1,2) rd m show ?thesis by simp
  next
    case True
    define cs1 where "cs1 = cs[Suc d := Live x', d := Live t']"
    from Suc.prems(1,2) rd m True
    have rec: "move_range T cs1 (Suc (Suc d)) n (Suc d) s1 = (Some e, cs', s')"
      by (simp add: cs1_def)
    have "\<forall>j. Suc d \<le> j \<and> j \<le> Suc d + n \<longrightarrow> j < length cs1 \<and> is_live (cs1 ! j)"
      using Suc.prems(3) by (auto simp: cs1_def nth_list_update is_live_def)
    from Suc.IH[OF rec refl this] show ?thesis .
  qed
qed

lemma Erase_ok:
  assumes h: "holds v w xs" and i: "i < length xs"
    and r: "Erase T (ptr_add (begin_v v) i) (v, w) = (Inr it, v', w')"
  shows "\<exists>zs. length zs = length xs - 1 \<and>
           (value_preserving T \<longrightarrow> zs = take i xs @ drop (Suc i) xs) \<and>
           holds v' w' zs \<and> it = ptr_add (begin_v v') i \<and> data_m v' = data_m v"
proof -
  define n where "n = length xs"
  define k where "k = capacity_m (data_m v) - n"
  define cs where "cs = map Live xs @ replicate k Raw"
  have sz: "size_m v = n" using h by (simp add: holds_def n_def)
  have cap: "capacity_m (data_m v) = n + k" using h by (simp add: holds_def k_def n_def)
  have n0: "0 < n" "i < n" using i by (auto simp: n_def)
  have b: "block (data_m v) w = Some cs" using holds_block[OF h] by (simp add: cs_def k_def n_def)
  obtain a where a: "buffer_m (data_m v) = Some a" "a < next_addr w"
    using h n0 by (auto simp: holds_def n_def split: option.splits)
  have ok: "ptr_le (begin_v v) (ptr_add (begin_v v) i) \<and> ptr_less (ptr_add (begin_v v) i) (end_v v)"
    using n0 sz by (simp add: ptr_le_def ptr_less_def ptr_add_def begin_v_def end_v_def GetAddress_def)
  have pd: "ptr_diff (ptr_add (begin_v v) i) (begin_v v) = i"
    by (simp add: ptr_diff_def ptr_add_def begin_v_def GetAddress_def)
  note r = r[unfolded Erase_def prod.case if_P[OF ok] pd b option.case sz]
  obtain st cs' s' where mr: "move_range T cs (i + 1) (n - (i + 1)) i (tstate w) = (st, cs', s')"
    by (cases "move_range T cs (i + 1) (n - (i + 1)) i (tstate w)")
  from r mr have st: "st = None" by (cases st) auto
  have l1: "i + (n - (i + 1)) < length cs" using n0 by (simp add: cs_def n_def)
  have f1: "i + 1 = Suc i" by simp
  from move_range_ok[OF mr[unfolded st] f1 l1] obtain c ys where p:
    "length ys = n - (i + 1)"
    "cs' = take i cs @ map Live ys @ c # drop (i + (n - (i + 1)) + 1) cs"
    "n - (i + 1) = 0 \<longrightarrow> c = cs ! i" "0 < n - (i + 1) \<longrightarrow> is_live c"
    "value_preserving T \<longrightarrow> map Live ys = take (n - (i + 1)) (drop (Suc i) cs)"
    by (elim exE conjE) (rule that, assumption+)
  have "is_live (cs ! i)" using n0 by (simp add: cs_def nth_append n_def is_live_def)
  with p(3,4) have "is_live c" by (cases "n - (i + 1) = 0") auto
  then obtain c0 where c0: "c = Live c0" by (cases c) (auto simp: is_live_def)
  have e1: "i + (n - (i + 1)) + 1 = n" using n0 by simp
  have cs': "cs' = map Live (take i xs @ ys) @ Live c0 # replicate k Raw"
    using p(2) c0 n0 unfolding e1 by (simp add: cs_def n_def take_map)
  define w2 where "w2 = put_block (data_m v) cs' (w\<lparr>tstate := s'\<rparr>)"
  have b2: "block (data_m v) w2 = Some cs'" using a by (simp add: w2_def block_def put_block_def)
  have lz: "length (take i xs @ ys) = n - 1" using p(1) n0 by (simp add: n_def)
  have d: "Destroy cs' (n - 1) = Some (map Live (take i xs @ ys) @ Raw # replicate k Raw)"
    unfolding cs' Destroy_def using lz
    by (simp add: nth_append is_live_def list_update_append del: map_append)
  from r mr st have pb: "PopBack (v, w2) = (None, v', w')"
    and it: "it = ptr_add (begin_v v') i"
    by (auto simp: w2_def split: option.splits prod.splits)
  from pb sz n0 b2 d have res: "v' = v\<lparr>size_m := n - 1\<rparr>"
    "w' = put_block (data_m v) (map Live (take i xs @ ys) @ Raw # replicate k Raw) w2"
    by (auto simp: PopBack_def)
  have "Raw # replicate k Raw = replicate (n + k - (n - 1)) (Raw :: 'a cell)"
    using n0 by (simp add: Suc_diff_le flip: replicate_Suc)
  with res a cap lz h have hz: "holds v' w' (take i xs @ ys)"
    by (auto simp: holds_def put_block_def w2_def simp del: replicate_Suc)
  have vz: "value_preserving T \<longrightarrow> take i xs @ ys = take i xs @ drop (Suc i) xs"
  proof
    assume "value_preserving T"
    with p(5) have "map Live ys = take (n - (i + 1)) (drop (Suc i) cs)" by simp
    also have "\<dots> = map Live (drop (Suc i) xs)"
      using n0 by (simp add: cs_def n_def drop_map)
    finally show "take i xs @ ys = take i xs @ drop (Suc i) xs" by (simp add: map_Live_eq)
  qed
  have "data_m v' = data_m v" using res(1) by simp
  with lz vz hz it show ?thesis
    unfolding n_def by (intro exI[of _ "take i xs @ ys"]) simp
qed

lemma PopBack_not_Thrown: "fst (PopBack vw) \<noteq> Some Thrown"
  by (cases vw) (auto simp: PopBack_def split: option.splits)

lemma Erase_noexcept:
  assumes "nothrow_move_assignable T"
  shows "fst (Erase T pos (v, w)) \<noteq> Inl Thrown"
proof
  assume t: "fst (Erase T pos (v, w)) = Inl Thrown"
  then have ok: "ptr_le (begin_v v) pos \<and> ptr_less pos (end_v v)"
    by (auto simp: Erase_def split: if_splits)
  note t = t[unfolded Erase_def prod.case if_P[OF ok]]
  from t obtain cs where b: "block (data_m v) w = Some cs"
    by (cases "block (data_m v) w") auto
  let ?m = "move_range T cs (ptr_diff pos (begin_v v) + 1)
              (size_m v - (ptr_diff pos (begin_v v) + 1)) (ptr_diff pos (begin_v v)) (tstate w)"
  obtain st cs' s' where mr: "?m = (st, cs', s')" by (cases ?m)
  show False
  proof (cases st)
    case None
    with t b mr PopBack_not_Thrown[of "(v, put_block (data_m v) cs' (w\<lparr>tstate := s'\<rparr>))"]
    show False by (auto split: option.splits prod.splits)
  next
    case (Some e)
    from move_range_nothrow[OF mr[unfolded Some] assms] have "e = UndefinedBehaviour" .
    with t b mr Some show False by simp
  qed
qed

lemma Erase_returns:
  assumes h: "holds v w xs" and i: "i < length xs" and nt: "nothrow_move_assignable T"
  shows "\<exists>it v' w'. Erase T (ptr_add (begin_v v) i) (v, w) = (Inr it, v', w')"
proof -
  define n where "n = length xs"
  define k where "k = capacity_m (data_m v) - n"
  define cs where "cs = map Live xs @ replicate k Raw"
  have sz: "size_m v = n" using h by (simp add: holds_def n_def)
  have n0: "0 < n" "i < n" using i by (auto simp: n_def)
  have b: "block (data_m v) w = Some cs" using holds_block[OF h] by (simp add: cs_def k_def n_def)
  obtain a where a: "buffer_m (data_m v) = Some a"
    using h n0 by (auto simp: holds_def n_def split: option.splits)
  have ok: "ptr_le (begin_v v) (ptr_add (begin_v v) i) \<and> ptr_less (ptr_add (begin_v v) i) (end_v v)"
    using n0 sz by (simp add: ptr_le_def ptr_less_def ptr_add_def begin_v_def end_v_def GetAddress_def)
  have pd: "ptr_diff (ptr_add (begin_v v) i) (begin_v v) = i"
    by (simp add: ptr_diff_def ptr_add_def begin_v_def GetAddress_def)
  obtain st cs' s' where mr: "move_range T cs (i + 1) (n - (i + 1)) i (tstate w) = (st, cs', s')"
    by (cases "move_range T cs (i + 1) (n - (i + 1)) i (tstate w)")
  have live: "\<forall>j. i \<le> j \<and> j \<le> i + (n - (i + 1)) \<longrightarrow> j < length cs \<and> is_live (cs ! j)"
    using n0 by (auto simp: cs_def n_def nth_append is_live_def)
  have st: "st = None"
  proof (cases st)
    case (Some e)
    from move_range_no_ub[OF mr[unfolded Some] _ live] have "e = Thrown" by simp
    moreover from move_range_nothrow[OF mr[unfolded Some] nt] have "e = UndefinedBehaviour" .
    ultimately show ?thesis by simp
  qed simp
  have l1: "i + (n - (i + 1)) < length cs" using n0 by (simp add: cs_def n_def)
  have f1: "i + 1 = Suc i" by simp
  from move_range_ok[OF mr[unfolded st] f1 l1] obtain c ys where p:
    "length ys = n - (i + 1)"
    "cs' = take i cs @ map Live ys @ c # drop (i + (n - (i + 1)) + 1) cs"
    "n - (i + 1) = 0 \<longrightarrow> c = cs ! i" "0 < n - (i + 1) \<longrightarrow> is_live c"
    by (elim exE conjE) (rule that, assumption+)
  have "is_live (cs ! i)" using n0 by (simp add: cs_def nth_append n_def is_live_def)
  with p(3,4) have lc: "is_live c" by (cases "n - (i + 1) = 0") auto
  have li: "length (take i cs @ map Live ys) = n - 1"
    using p(1) n0 by (simp add: cs_def n_def)
  define pre where "pre = take i cs @ map Live ys"
  have cp: "cs' = pre @ c # drop (i + (n - (i + 1)) + 1) cs" and lp: "length pre = n - 1"
    using p(2) li by (simp_all add: pre_def)
  have "cs' ! length pre = c" unfolding cp by (rule nth_append_length)
  moreover have "length pre < length cs'" unfolding cp by simp
  ultimately have "n - 1 < length cs' \<and> is_live (cs' ! (n - 1))"
    using lc lp by simp
  then obtain cs'' where d: "Destroy cs' (n - 1) = Some cs''" by (simp add: Destroy_def)
  have b2: "block (data_m v) (put_block (data_m v) cs' (w\<lparr>tstate := s'\<rparr>)) = Some cs'"
    using a by (simp add: block_def put_block_def)
  show ?thesis
    unfolding Erase_def prod.case if_P[OF ok] pd b option.case sz mr st
    using n0 sz b2 d by (simp add: PopBack_def)
qed


text \<open>
  C9. \<^verbatim>\<open>Erase\<close> at \<open>begin() + i\<close>, \<open>i < size\<close>, on a vector holding \<open>xs\<close>: a call that returns
  leaves a vector holding \<open>take i xs @ drop (Suc i) xs\<close> in the same block (the capacity is
  unchanged and the cell of the former last element is raw again), the size is one less, and
  the iterator returned is \<open>begin() + i\<close>. With a move assignment that cannot throw,
  \<^verbatim>\<open>Erase\<close> never ends with an exception of the element type, and on a valid position it
  returns.
\<close>

theorem Erase_spec:
  "(holds v w xs \<and> i < length xs \<and> value_preserving T \<and>
    Erase T (ptr_add (begin_v v) i) (v, w) = (Inr it, v', w')
      \<longrightarrow> holds v' w' (take i xs @ drop (Suc i) xs) \<and> Size v' = Size v - 1 \<and>
          Capacity v' = Capacity v \<and> it = ptr_add (begin_v v') i) \<and>
   (nothrow_move_assignable T \<longrightarrow> fst (Erase T pos (v, w)) \<noteq> Inl Thrown) \<and>
   (holds v w xs \<and> i < length xs \<and> nothrow_move_assignable T
      \<longrightarrow> (\<exists>it v' w'. Erase T (ptr_add (begin_v v) i) (v, w) = (Inr it, v', w')))"
proof (intro conjI impI)
  assume a: "holds v w xs \<and> i < length xs \<and> value_preserving T \<and>
    Erase T (ptr_add (begin_v v) i) (v, w) = (Inr it, v', w')"
  then have h: "holds v w xs" and i: "i < length xs" and vp: "value_preserving T"
    and r: "Erase T (ptr_add (begin_v v) i) (v, w) = (Inr it, v', w')" by simp_all
  from Erase_ok[OF h i r] vp obtain zs where z: "length zs = length xs - 1"
    "zs = take i xs @ drop (Suc i) xs" "holds v' w' zs" "it = ptr_add (begin_v v') i"
    "data_m v' = data_m v" by auto
  from z h show "holds v' w' (take i xs @ drop (Suc i) xs)" "Size v' = Size v - 1"
    "Capacity v' = Capacity v" "it = ptr_add (begin_v v') i"
    by (auto simp: holds_def Size_def Capacity_def)
next
  assume "nothrow_move_assignable T"
  then show "fst (Erase T pos (v, w)) \<noteq> Inl Thrown" by (rule Erase_noexcept)
next
  assume "holds v w xs \<and> i < length xs \<and> nothrow_move_assignable T"
  then show "\<exists>it v' w'. Erase T (ptr_add (begin_v v) i) (v, w) = (Inr it, v', w')"
    using Erase_returns by blast
qed

theorem Erase_spec_witness:
  "holds vec3 (world3 []) [1, 2, 3] \<and> (0::nat) < length [1, 2, 3 :: nat] \<and>
   value_preserving (T_probe True True (0::nat) id) \<and>
   nothrow_move_assignable (T_probe True True (0::nat) id) \<and>
   fst (Erase (T_probe True True 0 id) (ptr_add (begin_v vec3) 0) (vec3, world3 []))
     = Inr (Some 3, 0) \<and>
   holds (fst (snd (Erase (T_probe True True 0 id) (ptr_add (begin_v vec3) 0) (vec3, world3 []))))
         (snd (snd (Erase (T_probe True True 0 id) (ptr_add (begin_v vec3) 0) (vec3, world3 []))))
         [2, 3] \<and>
   Size (fst (snd (Erase (T_probe True True 0 id) (ptr_add (begin_v vec3) 0) (vec3, world3 []))))
     = 2 \<and>
   Capacity (fst (snd (Erase (T_probe True True 0 id) (ptr_add (begin_v vec3) 0) (vec3, world3 []))))
     = 4"
proof -
  let ?T = "T_probe True True (0::nat) id"
  let ?E = "Erase ?T (ptr_add (begin_v vec3) 0) (vec3, world3 [])"
  have h: "holds vec3 (world3 []) [1, 2, 3]" by (rule holds_vec3)
  have i: "(0::nat) < length [1, 2, 3 :: nat]" by simp
  have vp: "value_preserving ?T" by (rule value_preserving_probe)
  have nt: "nothrow_move_assignable ?T" by (rule nothrow_move_assignable_probe)
  have e: "fst ?E = Inr (Some 3, 0)" by code_simp
  then have e': "?E = (Inr (Some 3, 0), fst (snd ?E), snd (snd ?E))" by (metis prod.collapse)
  have sc: "Size vec3 - 1 = 2" "Capacity vec3 = 4" by (simp_all add: Size_def Capacity_def vec3_def)
  have td: "take 0 [1, 2, 3 :: nat] @ drop (Suc 0) [1, 2, 3] = [2, 3]" by simp
  from Erase_spec[where v = vec3 and w = "world3 []" and xs = "[1, 2, 3]" and i = 0 and T = ?T
      and it = "(Some 3, 0)" and v' = "fst (snd ?E)" and w' = "snd (snd ?E)"] h i vp e'
  have "holds (fst (snd ?E)) (snd (snd ?E)) (take 0 [1, 2, 3] @ drop (Suc 0) [1, 2, 3]) \<and>
        Size (fst (snd ?E)) = Size vec3 - 1 \<and> Capacity (fst (snd ?E)) = Capacity vec3"
    by blast
  then have 1: "holds (fst (snd ?E)) (snd (snd ?E)) [2, 3] \<and>
        Size (fst (snd ?E)) = 2 \<and> Capacity (fst (snd ?E)) = 4"
    unfolding td sc .
  from h i vp nt e 1 show ?thesis by blast
qed

subsection \<open>Copy construction\<close>

lemma Vector_copy_ok:
  assumes h: "holds other w xs" and r: "Vector_copy T other w = (Inr c, w')"
  shows "\<exists>ys. length ys = length xs \<and> (value_preserving T \<longrightarrow> ys = xs) \<and>
           holds c w' ys \<and> holds other w' xs \<and>
           size_m c = length xs \<and> capacity_m (data_m c) = length xs \<and>
           (buffer_m (data_m c) = None \<or> buffer_m (data_m c) \<noteq> buffer_m (data_m other))"
proof -
  define n where "n = length xs"
  define k where "k = capacity_m (data_m other) - n"
  define src where "src = map Live xs @ replicate k Raw"
  have sz: "size_m other = n" using h by (simp add: holds_def n_def)
  have ad: "addressable other w" by (rule holds_addressable[OF h])
  then have t0: "0 < tsize w" by (simp add: addressable_def)
  have le: "n \<le> capacity_m (data_m other)" using h by (simp add: holds_def n_def)
  have nw: "n * tsize w < 2 ^ 64"
    by (rule addressable_no_wrap[OF ad]) (use le in simp)
  note r = r[unfolded Vector_copy_def sz]
  from r obtain m w1 where new: "RawMemory_new n w = Inr (m, w1)"
    by (auto split: sum.splits)
  note r = r[unfolded new sum.case prod.case]
  show ?thesis
  proof (cases "n = 0")
    case True
    with new have m: "m = \<lparr>buffer_m = None, capacity_m = 0\<rparr>" and w1: "w1 = w"
      by (auto simp: RawMemory_new_def Allocate_def)
    from True have xs: "xs = []" by (simp add: n_def)
    have bs: "block (data_m other) w = Some src"
      using holds_block[OF h] by (simp add: src_def k_def n_def)
    have bm: "block m w = Some []" by (simp add: m block_def)
    from r True have res: "c = \<lparr>data_m = m, size_m = 0\<rparr>" "w' = w\<lparr>tstate := tstate w\<rparr>"
      unfolding w1 bs bm by (auto simp: put_block_def m)
    have "addressable c w'"
      by (rule addressable_mono[OF ad]) (simp_all add: res m)
    then have "holds c w' []" using res by (simp add: holds_def m)
    moreover have "holds other w' xs" using h res by (simp add: holds_def)
    ultimately show ?thesis using xs res by (auto simp: m)
  next
    case False
    define nd where "nd = \<lparr>buffer_m = Some (next_addr w), capacity_m = n\<rparr>"
    define w1a where "w1a = w\<lparr>heap := (heap w)(next_addr w \<mapsto> replicate n Raw),
          next_addr := Suc (next_addr w), avail := avail w - n * tsize w\<rparr>"
    from RawMemory_new_Inr[OF new False t0 nw] have m: "m = nd" and w1: "w1 = w1a"
      by (simp_all add: nd_def w1a_def)
    have fresh: "buffer_m (data_m other) \<noteq> Some (next_addr w)"
      using h by (auto simp: holds_def split: option.splits)
    have bs: "block (data_m other) w1a = Some src"
      using holds_block[OF h] fresh
      by (auto simp: block_def w1a_def src_def k_def n_def split: option.splits)
    have bm: "block nd w1a = Some (replicate n Raw)"
      by (simp add: block_def nd_def w1a_def)
    note r = r[unfolded m w1 bs bm option.case prod.case]
    obtain st nb1 s1 where uc:
      "uninitialized_copy_n T src 0 n (replicate n Raw) 0 (tstate w1a) = (st, nb1, s1)"
      by (cases "uninitialized_copy_n T src 0 n (replicate n Raw) 0 (tstate w1a)")
    from r uc have st: "st = None" by (cases st) auto
    from ucopy_ok[OF uc[unfolded st]] obtain ys where ys: "length ys = n"
      "nb1 = map Live ys" "value_preserving T \<longrightarrow> take n src = map Live ys"
      by auto
    from r uc st have res: "c = \<lparr>data_m = nd, size_m = n\<rparr>"
      "w' = put_block nd nb1 (w1a\<lparr>tstate := s1\<rparr>)"
      by auto
    have vy: "value_preserving T \<longrightarrow> ys = xs"
      using ys(3) by (auto simp: src_def n_def map_Live_eq)
    have fr: "tsize w' = tsize w" "avail w' \<le> avail w"
      using res(2) by (simp_all add: nd_def w1a_def put_block_def)
    have adc: "addressable c w'"
      by (rule addressable_mono[OF ad _ fr]) (use le in \<open>simp add: res nd_def\<close>)
    have ado: "addressable other w'"
      by (rule addressable_mono[OF ad le_refl fr])
    have hc: "holds c w' ys"
      using res ys(1,2) False adc by (simp add: holds_def nd_def w1a_def put_block_def)
    have ho: "holds other w' xs"
      using h res fresh ado
      by (auto simp: holds_def nd_def w1a_def put_block_def split: option.splits)
    from ys(1) vy hc ho res fresh show ?thesis
      by (intro exI[of _ ys]) (auto simp: nd_def n_def)
  qed
qed

lemma set_at_frame:
  assumes hc: "holds c w ys" and ho: "holds other w xs"
    and dj: "buffer_m (data_m c) = None \<or> buffer_m (data_m c) \<noteq> buffer_m (data_m other)"
    and r: "set_at T c i x w = (None, w')"
  shows "holds other w' xs \<and>
         (\<exists>zs. length zs = length ys \<and> holds c w' zs \<and> (value_preserving T \<longrightarrow> zs = ys[i := x]))"
proof -
  have sz: "size_m c = length ys" using hc by (simp add: holds_def)
  from r have i: "i < length ys"
    by (auto simp: set_at_def Vector_index_def sz split: if_splits)
  then have cap: "0 < capacity_m (data_m c)" "i < capacity_m (data_m c)"
    using hc by (auto simp: holds_def)
  then obtain a where a: "buffer_m (data_m c) = Some a" "a < next_addr w"
    "heap w a = Some (map Live ys @ replicate (capacity_m (data_m c) - length ys) Raw)"
    using hc by (auto simp: holds_def split: option.splits)
  define cs where "cs = map Live ys @ replicate (capacity_m (data_m c) - length ys) Raw"
  have rd: "read cs i = Some (ys ! i)" using i by (simp add: read_def cs_def nth_append)
  obtain ok t' s where ca: "copy_assign T (ys ! i) x (tstate w) = ((ok, t'), s)"
    by (cases "copy_assign T (ys ! i) x (tstate w)") auto
  from r i cap a rd ca have ok: ok and
    w': "w' = w\<lparr>heap := (heap w)(a \<mapsto> cs[i := Live t']), tstate := s\<rparr>"
    by (auto simp: set_at_def Vector_index_def RawMemory_index_def assign_through_def sz cs_def
        split: if_splits)
  have upd: "cs[i := Live t'] = map Live (ys[i := t']) @ replicate (capacity_m (data_m c) - length ys) Raw"
    using i by (simp add: cs_def list_update_append map_update)
  have 1: "holds other w' xs"
    using ho dj a w' by (auto simp: holds_def split: option.splits)
  have 2: "holds c w' (ys[i := t'])"
    using hc a w' upd by (auto simp: holds_def)
  have 3: "value_preserving T \<longrightarrow> t' = x"
    using ca ok unfolding value_preserving_def by (metis fst_conv snd_conv)
  from 1 2 3 show ?thesis by (intro conjI exI[of _ "ys[i := t']"]) auto
qed


text \<open>
  What a copy construction that returns leaves behind.
\<close>

lemma copy_construction_result:
  "holds other w xs \<and> value_preserving T \<and> Vector_copy T other w = (Inr c, w') \<longrightarrow>
     Size c = length xs \<and> Capacity c = length xs \<and> holds c w' xs \<and> holds other w' xs \<and>
     (\<forall>i x w''. set_at T c i x w' = (None, w'') \<longrightarrow>
        holds other w'' xs \<and> holds c w'' (xs[i := x])) \<and>
     (\<forall>i x w''. set_at T other i x w' = (None, w'') \<longrightarrow>
        holds c w'' xs \<and> holds other w'' (xs[i := x]))"
proof (intro impI)
  assume a: "holds other w xs \<and> value_preserving T \<and> Vector_copy T other w = (Inr c, w')"
  then have h: "holds other w xs" and vp: "value_preserving T"
    and r: "Vector_copy T other w = (Inr c, w')" by simp_all
  from Vector_copy_ok[OF h r] vp have hc: "holds c w' xs" and ho: "holds other w' xs"
    and sc: "size_m c = length xs" "capacity_m (data_m c) = length xs"
    and dj: "buffer_m (data_m c) = None \<or> buffer_m (data_m c) \<noteq> buffer_m (data_m other)"
    by auto
  have dj': "buffer_m (data_m other) = None \<or> buffer_m (data_m other) \<noteq> buffer_m (data_m c)"
    using dj hc ho by (auto simp: holds_def split: option.splits)
  have 1: "holds other w'' xs \<and> holds c w'' (xs[i := x])"
    if "set_at T c i x w' = (None, w'')" for i x w''
    using set_at_frame[OF hc ho dj that] vp by auto
  have 2: "holds c w'' xs \<and> holds other w'' (xs[i := x])"
    if "set_at T other i x w' = (None, w'')" for i x w''
    using set_at_frame[OF ho hc dj' that] vp by auto
  from hc ho sc 1 2
  show "Size c = length xs \<and> Capacity c = length xs \<and> holds c w' xs \<and> holds other w' xs \<and>
     (\<forall>i x w''. set_at T c i x w' = (None, w'') \<longrightarrow>
        holds other w'' xs \<and> holds c w'' (xs[i := x])) \<and>
     (\<forall>i x w''. set_at T other i x w' = (None, w'') \<longrightarrow>
        holds c w'' xs \<and> holds other w'' (xs[i := x]))"
    by (simp add: Size_def Capacity_def)
qed

subsection \<open>Calls that return\<close>

text \<open>
  With an element type none of whose operations throws, and enough memory for the block that
  is allocated, the calls below return normally.
\<close>

lemma ucopy_returns:
  "never_throws T \<Longrightarrow> f + n \<le> length src \<Longrightarrow>
   (\<forall>j. f \<le> j \<and> j < f + n \<longrightarrow> is_live (src ! j)) \<Longrightarrow> d + n \<le> length dst \<Longrightarrow>
   fst (uninitialized_copy_n T src f n dst d s) = None"
proof (induction n arbitrary: f dst d s)
  case 0
  then show ?case by simp
next
  case (Suc n)
  from Suc.prems(2,3) obtain x where rd: "read src f = Some x"
    by (cases "src ! f") (auto simp: read_def is_live_def)
  from Suc.prems(1) obtain y s1 where c: "copy_ctor T x s = (Some y, s1)"
    unfolding never_throws_def by (metis fst_conv option.exhaust surj_pair)
  have "fst (uninitialized_copy_n T src (Suc f) n (dst[d := Live y]) (Suc d) s1) = None"
    using Suc.prems by (intro Suc.IH) auto
  with rd c Suc.prems(4) show ?case by (auto split: prod.splits option.splits)
qed

lemma umove_returns:
  "never_throws T \<Longrightarrow> f + n \<le> length src \<Longrightarrow>
   (\<forall>j. f \<le> j \<and> j < f + n \<longrightarrow> is_live (src ! j)) \<Longrightarrow> d + n \<le> length dst \<Longrightarrow>
   fst (uninitialized_move_n T src f n dst d s) = None"
proof (induction n arbitrary: f src dst d s)
  case 0
  then show ?case by simp
next
  case (Suc n)
  from Suc.prems(2,3) obtain x where rd: "read src f = Some x"
    by (cases "src ! f") (auto simp: read_def is_live_def)
  from Suc.prems(1) obtain y r s1 where c: "move_ctor T x s = ((Some y, r), s1)"
    unfolding never_throws_def by (metis fst_conv option.exhaust surj_pair)
  have "fst (uninitialized_move_n T (src[f := Live r]) (Suc f) n (dst[d := Live y]) (Suc d) s1) = None"
    using Suc.prems by (intro Suc.IH) (auto simp: nth_list_update)
  with rd c Suc.prems(4) show ?case by (auto split: prod.splits option.splits)
qed

lemma move_backward_no_ub:
  "move_backward T cs f n dl s = (Some e, cs', s') \<Longrightarrow> dl = f + n + 1 \<Longrightarrow>
   (\<forall>j. f \<le> j \<and> j \<le> f + n \<longrightarrow> j < length cs \<and> is_live (cs ! j)) \<Longrightarrow> e = Thrown"
proof (induction n arbitrary: cs dl s cs' s')
  case 0
  then show ?case by simp
next
  case (Suc n)
  from Suc.prems(3) have "f + n < length cs" "is_live (cs ! (f + n))"
    "f + n + 1 < length cs" "is_live (cs ! (f + n + 1))"
    by auto
  then obtain x t where rd: "read cs (f + n) = Some x" "read cs (f + n + 1) = Some t"
    by (auto simp: read_def is_live_def split: cell.splits)
  obtain b t' x' s1 where m: "move_assign T t x s = ((b, t', x'), s1)"
    by (cases "move_assign T t x s") auto
  show ?case
  proof (cases b)
    case False
    with Suc.prems(1,2) rd m show ?thesis by simp
  next
    case True
    define cs1 where "cs1 = cs[f + n := Live x', f + n + 1 := Live t']"
    from Suc.prems(1,2) rd m True
    have rec: "move_backward T cs1 f n (f + n + 1) s1 = (Some e, cs', s')"
      by (simp add: cs1_def)
    have "\<forall>j. f \<le> j \<and> j \<le> f + n \<longrightarrow> j < length cs1 \<and> is_live (cs1 ! j)"
      using Suc.prems(3) by (auto simp: cs1_def nth_list_update is_live_def)
    from Suc.IH[OF rec refl this] show ?thesis .
  qed
qed

lemma never_throws_move_assignable: "never_throws T \<Longrightarrow> nothrow_move_assignable T"
  by (simp add: never_throws_def nothrow_move_assignable_def)

lemma never_throws_noexcept_sound: "never_throws T \<Longrightarrow> noexcept_sound T"
  by (simp add: never_throws_def noexcept_sound_def)

lemma live_prefix:
  "j < length xs \<Longrightarrow> is_live ((map Live xs @ rest) ! j)"
  by (simp add: nth_append is_live_def)

lemma Reserve_returns:
  assumes h: "holds v w xs" and lt: "capacity_m (data_m v) < n"
    and nw: "n * tsize w < 2 ^ 64" and av: "n * tsize w \<le> avail w"
    and nv: "never_throws T"
  shows "fst (Reserve T n (v, w)) = None"
proof -
  define k where "k = capacity_m (data_m v) - length xs"
  define old where "old = map Live xs @ replicate k Raw"
  define nd where "nd = \<lparr>buffer_m = Some (next_addr w), capacity_m = n\<rparr>"
  define w1 where "w1 = w\<lparr>heap := (heap w)(next_addr w \<mapsto> replicate n Raw),
          next_addr := Suc (next_addr w), avail := avail w - n * tsize w\<rparr>"
  have n0: "n \<noteq> 0" using lt by simp
  have t0: "0 < tsize w" using holds_addressable[OF h] by (simp add: addressable_def)
  have nlt: "\<not> n \<le> capacity_m (data_m v)" using lt by simp
  have sz: "size_m v = length xs" and le: "length xs \<le> capacity_m (data_m v)"
    using h by (simp_all add: holds_def)
  have new: "RawMemory_new n w = Inr (nd, w1)"
    unfolding nd_def w1_def by (rule RawMemory_new_fits[OF t0 nw av n0])
  have fresh: "buffer_m (data_m v) \<noteq> Some (next_addr w)"
    using h by (auto simp: holds_def split: option.splits)
  have b_old: "block (data_m v) w1 = Some old"
    using holds_block[OF h] fresh by (auto simp: block_def w1_def old_def k_def split: option.splits)
  have b_new: "block nd w1 = Some (replicate n Raw)"
    by (simp add: block_def nd_def w1_def)
  let ?tr = "(if is_nothrow_move_constructible T \<or> \<not> is_copy_constructible T
            then uninitialized_move_n T old 0 (length xs) (replicate n Raw) 0 (tstate w1)
            else (case uninitialized_copy_n T old 0 (length xs) (replicate n Raw) 0 (tstate w1) of
                    (r, nb', s') \<Rightarrow> (r, old, nb', s')))"
  have pre: "0 + length xs \<le> length old"
    "\<forall>j. 0 \<le> j \<and> j < 0 + length xs \<longrightarrow> is_live (old ! j)"
    "0 + length xs \<le> length (replicate n (Raw :: 'a cell))"
    using le lt by (auto simp: old_def live_prefix)
  have "fst ?tr = None"
  proof (cases "is_nothrow_move_constructible T \<or> \<not> is_copy_constructible T")
    case True
    then show ?thesis using umove_returns[OF nv pre] by simp
  next
    case False
    have "fst (uninitialized_copy_n T old 0 (length xs) (replicate n Raw) 0 (tstate w1)) = None"
      by (rule ucopy_returns[OF nv pre])
    then show ?thesis using False by (simp add: case_prod_beta)
  qed
  moreover obtain st old1 nb1 s1 where tr0: "?tr = (st, old1, nb1, s1)" by (cases ?tr)
  ultimately have tr: "?tr = (None, old1, nb1, s1)" by simp
  from transfer_ok[OF tr] obtain ys rs where yr:
    "length rs = length xs" "old1 = map Live rs @ drop (length xs) old \<or> old1 = old"
    by (elim exE conjE) (rule that, assumption+)
  then obtain zs where zs: "length zs = length xs" "old1 = [] @ map Live zs @ replicate k Raw"
    by (auto simp: old_def)
  have d: "DestroyN old1 0 (length xs) = Some ([] @ replicate (length xs) Raw @ replicate k Raw)"
    unfolding zs(2) using zs(1) by (intro DestroyN_live) auto
  show ?thesis
    unfolding Reserve_def prod.case if_not_P[OF nlt] new sum.case b_old b_new option.case sz tr d
    by (simp add: RawMemory_Swap_def)
qed

lemma Vector_copy_returns:
  assumes h: "holds other w xs" and av: "length xs * tsize w \<le> avail w"
    and nv: "never_throws T"
  shows "\<exists>c w'. Vector_copy T other w = (Inr c, w')"
proof -
  define n where "n = length xs"
  define k where "k = capacity_m (data_m other) - n"
  define src where "src = map Live xs @ replicate k Raw"
  have sz: "size_m other = n" using h by (simp add: holds_def n_def)
  have ad: "addressable other w" by (rule holds_addressable[OF h])
  then have t0: "0 < tsize w" by (simp add: addressable_def)
  have le: "n \<le> capacity_m (data_m other)" using h by (simp add: holds_def n_def)
  have nw: "n * tsize w < 2 ^ 64"
    by (rule addressable_no_wrap[OF ad]) (use le in simp)
  show ?thesis
  proof (cases "n = 0")
    case True
    have new: "RawMemory_new n w = Inr (\<lparr>buffer_m = None, capacity_m = 0\<rparr>, w)"
      using True by (simp add: RawMemory_new_def Allocate_def)
    have bs: "block (data_m other) w = Some src"
      using holds_block[OF h] by (simp add: src_def k_def n_def)
    show ?thesis
      unfolding Vector_copy_def sz new sum.case prod.case bs using True
      by (simp add: block_def)
  next
    case False
    define nd where "nd = \<lparr>buffer_m = Some (next_addr w), capacity_m = n\<rparr>"
    define w1 where "w1 = w\<lparr>heap := (heap w)(next_addr w \<mapsto> replicate n Raw),
          next_addr := Suc (next_addr w), avail := avail w - n * tsize w\<rparr>"
    have new: "RawMemory_new n w = Inr (nd, w1)"
      unfolding nd_def w1_def by (rule RawMemory_new_fits[OF t0 nw av[folded n_def] False])
    have fresh: "buffer_m (data_m other) \<noteq> Some (next_addr w)"
      using h by (auto simp: holds_def split: option.splits)
    have bs: "block (data_m other) w1 = Some src"
      using holds_block[OF h] fresh
      by (auto simp: block_def w1_def src_def k_def n_def split: option.splits)
    have bm: "block nd w1 = Some (replicate n Raw)"
      by (simp add: block_def nd_def w1_def)
    have "fst (uninitialized_copy_n T src 0 n (replicate n Raw) 0 (tstate w1)) = None"
      by (rule ucopy_returns[OF nv]) (auto simp: src_def n_def live_prefix)
    moreover obtain st nb1 s1 where
      "uninitialized_copy_n T src 0 n (replicate n Raw) 0 (tstate w1) = (st, nb1, s1)"
      by (cases "uninitialized_copy_n T src 0 n (replicate n Raw) 0 (tstate w1)")
    ultimately have
      uc: "uninitialized_copy_n T src 0 n (replicate n Raw) 0 (tstate w1) = (None, nb1, s1)"
      by simp
    show ?thesis
      unfolding Vector_copy_def sz new sum.case prod.case bs bm option.case uc by simp
  qed
qed


lemma Emplace_transfer_returns:
  assumes nv: "never_throws T"
    and old: "old = map Live xs @ replicate k Raw" and sz: "sz = length xs" and i: "i \<le> sz"
    and nb: "nb = (replicate c Raw)[i := Live x]" and c: "sz < c"
  shows "fst (Emplace_transfer T old sz i nb s) = None"
proof -
  have lo: "sz \<le> length old" "length nb = c" using old sz nb by simp_all
  have live: "\<forall>j. j < sz \<longrightarrow> is_live (old ! j)" using old sz by (simp add: live_prefix)
  show ?thesis
  proof (cases "is_nothrow_move_constructible T \<or> \<not> is_copy_constructible T")
    case True
    have "fst (uninitialized_move_n T old 0 i nb 0 s) = None"
      by (rule umove_returns[OF nv]) (use lo live i c in auto)
    moreover obtain r1 o1 n1 t1 where "uninitialized_move_n T old 0 i nb 0 s = (r1, o1, n1, t1)"
      by (cases "uninitialized_move_n T old 0 i nb 0 s")
    ultimately have m1: "uninitialized_move_n T old 0 i nb 0 s = (None, o1, n1, t1)" by simp
    from umove_ok[OF m1] obtain ys1 rs1 where p1: "length rs1 = i"
      "o1 = take 0 old @ map Live rs1 @ drop (0 + i) old"
      by (elim exE conjE) (rule that, assumption+)
    from umove_length[OF m1] have l1: "length n1 = c" "length o1 = length old"
      using lo by simp_all
    have live1: "\<forall>j. i \<le> j \<and> j < i + (sz - i) \<longrightarrow> is_live (o1 ! j)"
      using p1 live i lo by (auto simp: nth_append)
    have "fst (uninitialized_move_n T o1 i (sz - i) n1 (i + 1) t1) = None"
      by (rule umove_returns[OF nv _ live1]) (use l1 lo i c in auto)
    moreover obtain r2 o2 n2 t2 where
      "uninitialized_move_n T o1 i (sz - i) n1 (i + 1) t1 = (r2, o2, n2, t2)"
      by (cases "uninitialized_move_n T o1 i (sz - i) n1 (i + 1) t1")
    ultimately have m2: "uninitialized_move_n T o1 i (sz - i) n1 (i + 1) t1 = (None, o2, n2, t2)"
      by simp
    show ?thesis unfolding Emplace_transfer_def if_P[OF True] m1 prod.case option.case m2 by simp
  next
    case False
    have "fst (uninitialized_copy_n T old 0 i nb 0 s) = None"
      by (rule ucopy_returns[OF nv]) (use lo live i c in auto)
    moreover obtain r1 n1 t1 where "uninitialized_copy_n T old 0 i nb 0 s = (r1, n1, t1)"
      by (cases "uninitialized_copy_n T old 0 i nb 0 s")
    ultimately have m1: "uninitialized_copy_n T old 0 i nb 0 s = (None, n1, t1)" by simp
    from ucopy_length[OF m1] have l1: "length n1 = c" using lo by simp
    have "fst (uninitialized_copy_n T old i (sz - i) n1 (i + 1) t1) = None"
      by (rule ucopy_returns[OF nv]) (use l1 lo live i c in auto)
    moreover obtain r2 n2 t2 where
      "uninitialized_copy_n T old i (sz - i) n1 (i + 1) t1 = (r2, n2, t2)"
      by (cases "uninitialized_copy_n T old i (sz - i) n1 (i + 1) t1")
    ultimately have m2: "uninitialized_copy_n T old i (sz - i) n1 (i + 1) t1 = (None, n2, t2)"
      by simp
    show ?thesis unfolding Emplace_transfer_def if_not_P[OF False] m1 prod.case option.case m2
      by simp
  qed
qed

lemma Emplace_shift_returns:
  assumes nt: "nothrow_move_assignable T" and i: "i < sz"
    and live: "\<forall>j. i \<le> j \<and> j < sz \<longrightarrow> j < length cs \<and> is_live (cs ! j)"
  shows "\<exists>cs' s'. Emplace_shift T cs i sz s = (Some cs', s')"
proof -
  obtain r cs2 s2 where mb: "move_backward T cs i (sz - 1 - i) sz s = (r, cs2, s2)"
    by (cases "move_backward T cs i (sz - 1 - i) sz s")
  have r: "r = None"
  proof (cases r)
    case (Some e)
    have 1: "sz = i + (sz - 1 - i) + 1" using i by simp
    have 2: "\<forall>j. i \<le> j \<and> j \<le> i + (sz - 1 - i) \<longrightarrow> j < length cs \<and> is_live (cs ! j)"
      using live i by auto
    from move_backward_no_ub[OF mb[unfolded Some] 1 2] have "e = Thrown" .
    moreover from move_backward_nothrow[OF mb[unfolded Some] nt] have "e = UndefinedBehaviour" .
    ultimately show ?thesis by simp
  qed simp
  show ?thesis unfolding Emplace_shift_def mb r by simp
qed

lemma Emplace_returns:
  assumes h: "holds v w xs" and i: "i \<le> length xs" and nv: "never_throws T"
    and mk: "mk (tstate w) = (Some x, s0)"
    and av: "size_m v = capacity_m (data_m v) \<longrightarrow>
               (if length xs = 0 then 1 else length xs * 2) * tsize w \<le> avail w"
  shows "\<exists>it v' w'. Emplace T (ptr_add (begin_v v) i) mk (v, w) = (Inr it, v', w')"
proof -
  have sz: "size_m v = length xs" and le: "length xs \<le> capacity_m (data_m v)"
    using h by (simp_all add: holds_def)
  have pos: "ptr_add (begin_v v) i = (buffer_m (data_m v), i)"
    by (simp add: ptr_add_def begin_v_def GetAddress_def)
  have ok: "ptr_le (begin_v v) (ptr_add (begin_v v) i) \<and> ptr_le (ptr_add (begin_v v) i) (end_v v)"
    using i sz by (simp add: ptr_le_def ptr_add_def begin_v_def end_v_def GetAddress_def)
  have pd: "ptr_diff (ptr_add (begin_v v) i) (begin_v v) = i"
    by (simp add: ptr_diff_def ptr_add_def begin_v_def GetAddress_def)
  have nt: "nothrow_move_assignable T" by (rule never_throws_move_assignable[OF nv])
  show ?thesis
  proof (cases "size_m v = Capacity v")
    case True
    then have full: "size_m v = capacity_m (data_m v)" by (simp add: Capacity_def)
    define c where "c = (if length xs = 0 then 1 else length xs * 2)"
    define old where "old = map Live xs @ replicate 0 Raw"
    define nd where "nd = \<lparr>buffer_m = Some (next_addr w), capacity_m = c\<rparr>"
    define w1 where "w1 = w\<lparr>heap := (heap w)(next_addr w \<mapsto> replicate c Raw),
          next_addr := Suc (next_addr w), avail := avail w - c * tsize w\<rparr>"
    have cap: "capacity_m (data_m v) = length xs" using sz full by simp
    have c0: "c \<noteq> 0" "length xs < c" by (auto simp: c_def)
    have ad: "addressable v w" by (rule holds_addressable[OF h])
    then have t0: "0 < tsize w" by (simp add: addressable_def)
    have nw: "c * tsize w < 2 ^ 64"
      by (rule addressable_no_wrap[OF ad]) (simp add: c_def cap)
    have "length xs * 2 \<le> c * tsize w" if "length xs \<noteq> 0"
      using that t0 by (cases "tsize w") (simp_all add: c_def)
    with nw have "length xs \<noteq> 0 \<Longrightarrow> length xs * 2 < 2 ^ 64" by fastforce
    then have ceq: "(if size_m v = 0 then 1 else size_t_mul (size_m v) 2) = c"
      by (simp add: c_def sz size_t_mul_fits)
    have fit: "c * tsize w \<le> avail w" using av full by (simp add: c_def)
    have new: "RawMemory_new c w = Inr (nd, w1)"
      unfolding nd_def w1_def by (rule RawMemory_new_fits[OF t0 nw fit c0(1)])
    have fresh: "buffer_m (data_m v) \<noteq> Some (next_addr w)"
      using h by (auto simp: holds_def split: option.splits)
    have b_old: "block (data_m v) w1 = Some old"
      using holds_block[OF h] fresh cap
      by (auto simp: block_def w1_def old_def split: option.splits)
    have b_new: "block nd w1 = Some (replicate c Raw)"
      by (simp add: block_def nd_def w1_def)
    have il: "i < length (replicate c (Raw :: 'a cell))" using i c0 by simp
    have ts: "tstate w1 = tstate w" by (simp add: w1_def)
    let ?tr = "Emplace_transfer T old (size_m v) i ((replicate c Raw)[i := Live x]) s0"
    have "fst ?tr = None"
      by (rule Emplace_transfer_returns[OF nv old_def sz i[folded sz] refl c0(2)[folded sz]])
    moreover obtain st old1 nb1 s1 where "?tr = (st, old1, nb1, s1)" by (cases ?tr)
    ultimately have tr: "?tr = (None, old1, nb1, s1)" by simp
    from Emplace_transfer_ok[OF tr old_def sz i[folded sz] refl c0(2)[folded sz]]
    obtain rs where rs: "length rs = size_m v" "old1 = map Live rs @ replicate 0 Raw"
      by (elim exE conjE) (rule that, assumption+)
    have d: "DestroyN old1 0 (size_m v) = Some (replicate (size_m v) Raw)"
      using rs DestroyN_live[of 0 "[]" "size_m v" rs "[]"] by simp
    show ?thesis
      unfolding Emplace_def prod.case if_P[OF ok] pd if_P[OF True] Emplace_realloc_def ceq
        new sum.case b_old b_new option.case if_P[OF il] ts mk tr d
      by (simp add: RawMemory_Swap_def)
  next
    case False
    with sz le have lt: "size_m v < capacity_m (data_m v)" by (simp add: Capacity_def)
    define k where "k = capacity_m (data_m v) - length xs"
    define cs where "cs = map Live xs @ replicate k Raw"
    have k: "0 < k" using lt sz by (simp add: k_def)
    have b: "block (data_m v) w = Some cs" using holds_block[OF h] by (simp add: cs_def k_def)
    have lcs: "length cs = length xs + k" by (simp add: cs_def)
    have pe: "ptr_add (begin_v v) i = cend v \<longleftrightarrow> i = length xs"
      by (auto simp: cend_def ptr_add_def begin_v_def GetAddress_def sz)
    show ?thesis
    proof (cases "i = length xs")
      case True
      with pe have pc: "ptr_add (begin_v v) i = cend v" by simp
      have sl: "size_m v < length cs" using sz lcs k by simp
      show ?thesis
        unfolding Emplace_def prod.case if_P[OF ok] if_not_P[OF False] Emplace_inplace_def b
          option.case if_P[OF pc] if_P[OF sl] mk
        by simp
    next
      case ne: False
      with pe have pc: "ptr_add (begin_v v) i \<noteq> cend v" by simp
      define n where "n = length xs"
      have n0: "0 < n" "i < n" using ne i by (auto simp: n_def)
      have g: "0 < n \<and> n < length cs" using n0 lcs k by (simp add: n_def)
      have rl: "read cs (n - 1) = Some (xs ! (n - 1))"
        using n0 by (simp add: read_def cs_def nth_append n_def)
      from nv obtain y l' s1 where mc: "move_ctor T (xs ! (n - 1)) s0 = ((Some y, l'), s1)"
        unfolding never_throws_def by (metis fst_conv option.exhaust surj_pair)
      define cs1 where "cs1 = cs[n - 1 := Live l', n := Live y]"
      have cs1: "cs1 = map Live (xs[n - 1 := l']) @ Live y # replicate (k - 1) Raw"
        using k n0 by (cases k) (simp_all add: cs1_def cs_def list_update_append n_def map_update)
      have live: "\<forall>j. i \<le> j \<and> j < n \<longrightarrow> j < length cs1 \<and> is_live (cs1 ! j)"
        by (auto simp: cs1 n_def nth_append is_live_def)
      from Emplace_shift_returns[OF nt n0(2) live] obtain cs3 s2 where
        sh: "Emplace_shift T cs1 i n s1 = (Some cs3, s2)" by blast
      have l1: "n \<le> length cs1" by (simp add: cs1 n_def)
      have lv: "is_live (cs1 ! i)" using live n0 by simp
      from Emplace_shift_ok[OF sh nt n0(2) l1 lv] obtain c ys where
        p: "cs3 = take i cs1 @ Live c # map Live ys @ drop n cs1"
        by (elim exE conjE) (rule that, assumption+)
      have li: "length (take i cs1) = i" using n0 l1 by simp
      have rd3: "read cs3 i = Some c"
        unfolding p read_def using li by (simp add: nth_append del: length_take)
      from nv obtain t' temp' s3 where ma: "move_assign T c x s2 = ((True, t', temp'), s3)"
        unfolding never_throws_def by (metis (full_types) fst_conv surj_pair)
      show ?thesis
        unfolding Emplace_def prod.case if_P[OF ok] if_not_P[OF False]
        unfolding Emplace_inplace_def prod.case b option.case if_not_P[OF pc] mk pd
        unfolding sz n_def[symmetric] if_P[OF g] rl
        unfolding mc prod.case option.case cs1_def[symmetric] sh rd3 ma
        by simp
    qed
  qed
qed

lemma never_throws_plain: "never_throws (T_plain d)"
  by (simp add: never_throws_def T_plain_def)

lemma value_preserving_plain: "value_preserving (T_plain d)"
  by (simp add: value_preserving_def T_plain_def)

subsection \<open>Reserve with a size whose byte count does not fit\<close>

lemma umove_outside:
  "read src f = Some x \<Longrightarrow>
   uninitialized_move_n T src f (Suc n) [] d s = (Some UndefinedBehaviour, src, [], s)"
  by simp

text \<open>
  C8. \<^verbatim>\<open>Allocate\<close> multiplies the number of elements by \<^verbatim>\<open>sizeof(T)\<close> in \<^verbatim>\<open>size_t\<close>
  and does not check the product, although its comment says that it allocates raw memory for
  \<open>n\<close> elements. With elements of 4 bytes, \<^verbatim>\<open>Reserve(2^62)\<close> asks \<^verbatim>\<open>operator new\<close> for
  \<open>2 ^ 62 * 4 mod 2 ^ 64 = 0\<close> bytes. On the vector \<open>[1, 2, 3]\<close> of capacity 4 the first
  element is then constructed outside the new block: undefined behaviour, where the capacity
  should become \<open>2 ^ 62\<close> with the elements preserved (or the allocation fail). On an empty
  vector the call returns with capacity \<open>2 ^ 62\<close> and a block without a single cell, so the
  invariant is broken.
\<close>

theorem Reserve_allocation_wraps:
  "holds vec3 (world3 []) [1, 2, 3] \<and> Capacity vec3 < 2 ^ 62 \<and>
   size_t_mul (2 ^ 62) (tsize (world3 [])) = 0 \<and>
   fst (Reserve (T_plain 0) (2 ^ 62) (vec3, world3 [])) = Some UndefinedBehaviour \<and>
   (case Reserve (T_plain (0::nat)) (2 ^ 62) (Vector_default, world0 []) of
      (r, v', w') \<Rightarrow>
        r = None \<and> Capacity v' = 2 ^ 62 \<and> Size v' = 0 \<and>
        block (data_m v') w' = Some [] \<and> \<not> vinv v' w')"
proof -
  have m3: "size_t_mul (2 ^ 62) (tsize (world3 [])) = 0"
    by (simp add: size_t_mul_def world3_def)
  have m0: "size_t_mul (2 ^ 62) (tsize (world0 [] :: (nat, bool list) world)) = 0"
    by (simp add: size_t_mul_def world0_def)
  have c: "Capacity vec3 < 2 ^ 62" by (simp add: Capacity_def vec3_def)
  have new3: "RawMemory_new (2 ^ 62) (world3 []) =
      Inr (\<lparr>buffer_m = Some 4, capacity_m = 2 ^ 62\<rparr>,
           (world3 [])\<lparr>heap := (heap (world3 []))(4 \<mapsto> []), next_addr := 5\<rparr>)"
    by (simp add: RawMemory_new_def Allocate_def operator_new_def size_t_mul_def world3_def)
  have new0: "RawMemory_new (2 ^ 62) (world0 [] :: (nat, bool list) world) =
      Inr (\<lparr>buffer_m = Some 1, capacity_m = 2 ^ 62\<rparr>,
           (world0 [])\<lparr>heap := (heap (world0 []))(1 \<mapsto> []), next_addr := 2\<rparr>)"
    by (simp add: RawMemory_new_def Allocate_def operator_new_def size_t_mul_def world0_def)
  let ?w1 = "(world3 [])\<lparr>heap := (heap (world3 []))(4 \<mapsto> []), next_addr := 5\<rparr>"
  let ?nd = "\<lparr>buffer_m = Some 4, capacity_m = 2 ^ 62\<rparr>"
  have s3: "size_m vec3 = Suc 2" by (simp add: vec3_def)
  have nle: "\<not> (2 :: nat) ^ 62 \<le> capacity_m (data_m vec3)" by (simp add: vec3_def)
  have nt: "is_nothrow_move_constructible (T_plain (0::nat) :: (nat, bool list) elem_type)
            \<or> \<not> is_copy_constructible (T_plain (0::nat) :: (nat, bool list) elem_type)"
    by (simp add: T_plain_def)
  have bo: "block (data_m vec3) ?w1 = Some [Live 1, Live 2, Live 3, Raw]"
    by (simp add: block_def vec3_def world3_def)
  have bn: "block ?nd ?w1 = Some []" by (simp add: block_def)
  have rd: "read [Live 1, Live 2, Live 3, Raw :: nat cell] 0 = Some 1" by (simp add: read_def)
  have 1: "fst (Reserve (T_plain 0) (2 ^ 62) (vec3, world3 [])) = Some UndefinedBehaviour"
    unfolding Reserve_def prod.case if_not_P[OF nle] new3 sum.case bo bn option.case
      if_P[OF nt] s3 umove_outside[OF rd]
    by simp
  have 2: "(case Reserve (T_plain (0::nat)) (2 ^ 62) (Vector_default, world0 []) of
      (r, v', w') \<Rightarrow>
        r = None \<and> Capacity v' = 2 ^ 62 \<and> Size v' = 0 \<and>
        block (data_m v') w' = Some [] \<and> \<not> vinv v' w')"
    unfolding Reserve_def prod.case new0 sum.case
    by (simp add: Vector_default_def RawMemory_default_def world0_def block_def T_plain_def
          RawMemory_Swap_def write_back_def put_block_def Deallocate_def Capacity_def Size_def
          vinv_def)
  from holds_vec3[of "[]"] c m3 1 2 show ?thesis by blast
qed

subsection \<open>Insertion when a move assignment throws\<close>

text \<open>
  C1. The vector \<open>[1, 2, 3]\<close> has capacity 4. In \<^verbatim>\<open>Insert(begin() + 1, 99)\<close> the move
  assignment of \<^verbatim>\<open>std::move_backward\<close> throws (the third operation of the element type
  in the call). The handler destroys the object in \<^verbatim>\<open>end()\<close> and does not rethrow, so the
  call returns an iterator to position 1 and the size is 4, but the vector does not hold
  \<open>[1, 99, 2, 3]\<close>: the element 2 is lost and cell 3 holds no object.
\<close>

theorem Insert_loses_an_element:
  "holds vec3 (world3 [False, False, True]) [1, 2, 3] \<and> Size vec3 < Capacity vec3 \<and>
   (case Insert (T_probe False True 0 id) (ptr_add (begin_v vec3) 1) 99
           (vec3, world3 [False, False, True]) of
      (r, v', w') \<Rightarrow>
        r = Inr (ptr_add (begin_v v') 1) \<and> Size v' = 4 \<and>
        block (data_m v') w' = Some [Live 1, Live 99, Live 3, Raw] \<and>
        \<not> holds v' w' [1, 99, 2, 3])"
  by code_simp

subsection \<open>The copy constructor\<close>

text \<open>
  C7. A copy construction from a vector holding \<open>xs\<close> that returns gives a vector of size
  and capacity \<open>length xs\<close> holding \<open>xs\<close>, and the source still holds \<open>xs\<close>. The two are
  independent: assigning to an element of the copy leaves the source holding \<open>xs\<close>, and
  assigning to an element of the source leaves the copy holding \<open>xs\<close>. The construction
  does return when no operation of the element type throws and the bytes of \<open>length xs\<close>
  cells can be allocated.
\<close>

theorem copy_construction:
  "(holds other w xs \<and> value_preserving T \<and> Vector_copy T other w = (Inr c, w') \<longrightarrow>
     Size c = length xs \<and> Capacity c = length xs \<and> holds c w' xs \<and> holds other w' xs \<and>
     (\<forall>i x w''. set_at T c i x w' = (None, w'') \<longrightarrow>
        holds other w'' xs \<and> holds c w'' (xs[i := x])) \<and>
     (\<forall>i x w''. set_at T other i x w' = (None, w'') \<longrightarrow>
        holds c w'' xs \<and> holds other w'' (xs[i := x]))) \<and>
   (holds other w xs \<and> never_throws T \<and> length xs * tsize w \<le> avail w \<longrightarrow>
     (\<exists>d z. Vector_copy T other w = (Inr d, z)))"
proof (rule conjI)
  show "holds other w xs \<and> never_throws T \<and> length xs * tsize w \<le> avail w \<longrightarrow>
     (\<exists>d z. Vector_copy T other w = (Inr d, z))"
    using Vector_copy_returns[of other w xs T] by blast
qed (rule copy_construction_result)

theorem copy_construction_witness:
  "holds vec3 (world3 []) [1, 2, 3] \<and> Capacity vec3 = 4 \<and>
   value_preserving (T_plain (0::nat) :: (nat, bool list) elem_type) \<and>
   never_throws (T_plain (0::nat) :: (nat, bool list) elem_type) \<and>
   length [1, 2, 3 :: nat] * tsize (world3 []) \<le> avail (world3 []) \<and>
   fst (Vector_copy (T_plain 0) vec3 (world3 []))
     = Inr \<lparr>data_m = \<lparr>buffer_m = Some 4, capacity_m = 3\<rparr>, size_m = 3\<rparr> \<and>
   holds \<lparr>data_m = \<lparr>buffer_m = Some 4, capacity_m = 3\<rparr>, size_m = 3\<rparr>
     (snd (Vector_copy (T_plain 0) vec3 (world3 []))) [1, 2, 3] \<and>
   holds vec3 (snd (Vector_copy (T_plain 0) vec3 (world3 []))) [1, 2, 3] \<and>
   fst (set_at (T_plain 0) \<lparr>data_m = \<lparr>buffer_m = Some 4, capacity_m = 3\<rparr>, size_m = 3\<rparr> 0 7
          (snd (Vector_copy (T_plain 0) vec3 (world3 [])))) = None \<and>
   holds vec3
     (snd (set_at (T_plain 0) \<lparr>data_m = \<lparr>buffer_m = Some 4, capacity_m = 3\<rparr>, size_m = 3\<rparr> 0 7
            (snd (Vector_copy (T_plain 0) vec3 (world3 []))))) [1, 2, 3] \<and>
   holds \<lparr>data_m = \<lparr>buffer_m = Some 4, capacity_m = 3\<rparr>, size_m = 3\<rparr>
     (snd (set_at (T_plain 0) \<lparr>data_m = \<lparr>buffer_m = Some 4, capacity_m = 3\<rparr>, size_m = 3\<rparr> 0 7
            (snd (Vector_copy (T_plain 0) vec3 (world3 []))))) [7, 2, 3] \<and>
   fst (set_at (T_plain 0) vec3 2 8 (snd (Vector_copy (T_plain 0) vec3 (world3 [])))) = None \<and>
   holds \<lparr>data_m = \<lparr>buffer_m = Some 4, capacity_m = 3\<rparr>, size_m = 3\<rparr>
     (snd (set_at (T_plain 0) vec3 2 8 (snd (Vector_copy (T_plain 0) vec3 (world3 [])))))
     [1, 2, 3] \<and>
   holds vec3
     (snd (set_at (T_plain 0) vec3 2 8 (snd (Vector_copy (T_plain 0) vec3 (world3 [])))))
     [1, 2, 8]"
proof -
  let ?T = "T_plain (0::nat) :: (nat, bool list) elem_type"
  let ?c = "\<lparr>data_m = \<lparr>buffer_m = Some 4, capacity_m = 3\<rparr>, size_m = 3\<rparr>"
  let ?V = "Vector_copy ?T vec3 (world3 [])"
  let ?S = "set_at ?T ?c 0 7 (snd ?V)"
  let ?O = "set_at ?T vec3 2 8 (snd ?V)"
  have h: "holds vec3 (world3 []) [1, 2, 3]" by (rule holds_vec3)
  have c4: "Capacity vec3 = 4" by (simp add: Capacity_def vec3_def)
  have vp: "value_preserving ?T" by (rule value_preserving_plain)
  have nv: "never_throws ?T" by (rule never_throws_plain)
  have av: "length [1, 2, 3 :: nat] * tsize (world3 []) \<le> avail (world3 [])"
    by (simp add: world3_def)
  from copy_construction[where other = vec3 and w = "world3 []" and xs = "[1, 2, 3]"
      and T = ?T] h nv av
  obtain d z where "?V = (Inr d, z)" by blast
  have v: "fst ?V = Inr ?c" by code_simp
  then have v': "?V = (Inr ?c, snd ?V)" by (metis prod.collapse)
  have s: "fst ?S = None" by code_simp
  then have s': "?S = (None, snd ?S)" by (metis prod.collapse)
  have o: "fst ?O = None" by code_simp
  then have o': "?O = (None, snd ?O)" by (metis prod.collapse)
  have u: "[1, 2, 3 :: nat][0 := 7] = [7, 2, 3]" "[1, 2, 3 :: nat][2 := 8] = [1, 2, 8]"
    by simp_all
  from copy_construction[where other = vec3 and w = "world3 []" and xs = "[1, 2, 3]" and T = ?T
      and c = ?c and w' = "snd ?V"] h vp v'
  have 1: "holds ?c (snd ?V) [1, 2, 3] \<and> holds vec3 (snd ?V) [1, 2, 3] \<and>
     (\<forall>i x w''. set_at ?T ?c i x (snd ?V) = (None, w'') \<longrightarrow>
        holds vec3 w'' [1, 2, 3] \<and> holds ?c w'' ([1, 2, 3][i := x])) \<and>
     (\<forall>i x w''. set_at ?T vec3 i x (snd ?V) = (None, w'') \<longrightarrow>
        holds ?c w'' [1, 2, 3] \<and> holds vec3 w'' ([1, 2, 3][i := x]))"
    by blast
  with s' have 2: "holds vec3 (snd ?S) [1, 2, 3] \<and> holds ?c (snd ?S) ([1, 2, 3][0 := 7])"
    by blast
  from 1 o' have 3: "holds ?c (snd ?O) [1, 2, 3] \<and> holds vec3 (snd ?O) ([1, 2, 3][2 := 8])"
    by blast
  from h c4 vp nv av v s o 1 2[unfolded u] 3[unfolded u] show ?thesis by blast
qed

end
